theory Spec2Isabelle
  imports Main "HOL-Library.While_Combinator"
begin

section \<open>Chain event ingestion and checkpointing: the two monitors\<close>

text \<open>
  The development embeds the two chain-watching scripts of the repository:
  \<^item> \<^verbatim>\<open>egg_premium.js\<close>, the ERC-721 monitor (suffix \<open>_egg\<close> below), and
  \<^item> \<^verbatim>\<open>items_erc1155_monitor.js\<close>, the ERC-1155 monitor (suffix \<open>_items\<close>).

  Conventions of the embedding:
  \<^item> ledger heights and the numeric configuration are \<open>int\<close>: the values \<^verbatim>\<open>parseInt\<close> and the
    chain client hand to the scripts, taken in the range where JavaScript numbers are exact
    integers;
  \<^item> token identifiers and amounts (\<^verbatim>\<open>uint256\<close>, received as BigInt) are \<open>nat\<close>;
  \<^item> addresses, hashes and dates are \<open>string\<close>; \<open>toLowerCase\<close> acts on the ASCII letters, which
    is all a hexadecimal address or hash contains;
  \<^item> an \<^verbatim>\<open>await\<close> that rejects is the value \<open>Inl e\<close> (for a query) or \<open>Some e\<close> (for a statement);
    a statement returns the error it threw, if any, together with the store it left behind;
  \<^item> the JSON files are the fields of a record; writing them is modelled as succeeding;
  \<^item> a loop is \<open>while_option\<close> over its condition and body, so a loop that never exits is \<open>None\<close>.
\<close>

subsection \<open>Strings\<close>

definition lowerChar :: "char \<Rightarrow> char" where
  "lowerChar c =
     (case map_of (zip ''ABCDEFGHIJKLMNOPQRSTUVWXYZ'' ''abcdefghijklmnopqrstuvwxyz'') c of
        Some l \<Rightarrow> l
      | None \<Rightarrow> c)"

definition toLowerCase :: "string \<Rightarrow> string" where
  "toLowerCase s = map lowerChar s"

text \<open>\<^verbatim>\<open>BigInt.prototype.toString()\<close>: the decimal digits, most significant first.\<close>

fun toString :: "nat \<Rightarrow> string" where
  "toString n =
     (if n < 10 then [''0123456789'' ! n]
      else toString (n div 10) @ [''0123456789'' ! (n mod 10)])"

declare toString.simps [simp del]

subsection \<open>Configuration, chain client and events\<close>

datatype error = Error string

record config =
  env_WATCH_WALLET :: string
  CONTRACT_ADDRESS :: string
  CONFIRMATIONS :: int
  CHUNK :: int
  INIT_LOOKBACK :: int
  FROM_BLOCK :: "int option"

text \<open>
  \<open>FROM_BLOCK\<close> is \<open>None\<close> when the variable is unset or empty, and otherwise the number
  \<^verbatim>\<open>parseInt\<close> reads from it. A variable \<^verbatim>\<open>parseInt\<close> reads no number from (the result is
  \<^verbatim>\<open>NaN\<close>) is outside the embedding, for this and the other numeric variables.
\<close>

definition WATCH_WALLET :: "config \<Rightarrow> string" where
  "WATCH_WALLET cfg = toLowerCase (env_WATCH_WALLET cfg)"

record log_obj =
  log_blockNumber :: int
  transactionHash :: string

record event =
  args_from :: string
  args_to :: string
  log :: log_obj

record transfer = event +
  args_tokenId :: nat

record transfer_single = event +
  args_id :: nat
  args_value :: nat

record transfer_batch = event +
  args_ids :: "nat list"
  args_values :: "nat list"

text \<open>
  The answers of the collaborators during one call of a driver. \<open>getBlock\<close> stands for the
  block lookup together with the formatting of its timestamp
  (\<^verbatim>\<open>new Date(block.timestamp * 1000).toISOString()\<close>); \<open>fetchEggType\<close> for the cached metadata
  lookup, which catches its own errors.
\<close>

record chain =
  getBlockNumber :: "error + int"
  getBlock :: "int \<Rightarrow> error + string"
  queryFilter_Transfer :: "int \<Rightarrow> int \<Rightarrow> error + transfer list"
  queryFilter_TransferSingle :: "int \<Rightarrow> int \<Rightarrow> error + transfer_single list"
  queryFilter_TransferBatch :: "int \<Rightarrow> int \<Rightarrow> error + transfer_batch list"
  fetchEggType :: "nat \<Rightarrow> string"

subsection \<open>Event Record Store\<close>

record row =
  receivedTo :: string
  sender :: string
  blockNumber :: int
  txHash :: string
  dateISO :: string

record egg_row = row +
  tokenId :: string
  eggType :: string

record item_row = row +
  tokenIds :: "string list"
  amounts :: "string list"
  itemTypes :: "string list"
  totalAmount :: string
  contract :: string

text \<open>
  \<^verbatim>\<open>db.sort((a, b) => b.blockNumber - a.blockNumber)\<close>: the stable sort by descending
  block number.
\<close>

definition sortDb :: "('a row_scheme) list \<Rightarrow> ('a row_scheme) list" where
  "sortDb rows = sort_key (\<lambda>r. - blockNumber r) rows"

text \<open>
  \<^verbatim>\<open>for (const ev of logs) await handler(ev)\<close>: the first handler that throws ends the loop.
\<close>

fun forEach :: "('ev \<Rightarrow> 'db \<Rightarrow> error option \<times> 'db) \<Rightarrow> 'ev list \<Rightarrow> 'db \<Rightarrow> error option \<times> 'db" where
  "forEach handler [] d = (None, d)"
| "forEach handler (ev # evs) d =
     (case handler ev d of
        (Some e, d') \<Rightarrow> (Some e, d')
      | (None, d') \<Rightarrow> forEach handler evs d')"

subsection \<open>The ERC-721 monitor (\<^verbatim>\<open>egg_premium.js\<close>)\<close>

definition makeKey :: "egg_row \<Rightarrow> string" where
  "makeKey r = toLowerCase (txHash r) @ ''_'' @ tokenId r"

definition enrichAndPersist_egg ::
  "chain \<Rightarrow> string \<Rightarrow> string \<Rightarrow> nat \<Rightarrow> log_obj \<Rightarrow> egg_row list \<Rightarrow> error option \<times> egg_row list" where
  "enrichAndPersist_egg ch from_addr to_addr tokId logObj d =
     (case getBlock ch (log_blockNumber logObj) of
        Inl e \<Rightarrow> (Some e, d)
      | Inr isoDate \<Rightarrow>
          let r = \<lparr>receivedTo = to_addr, sender = from_addr,
                   blockNumber = log_blockNumber logObj, txHash = transactionHash logObj,
                   dateISO = isoDate, tokenId = toString tokId,
                   eggType = fetchEggType ch tokId\<rparr>;
              key = makeKey r
          in if find (\<lambda>x. makeKey x = key) d = None
             then (None, sortDb (d @ [r]))
             else (None, d))"

text \<open>The body of the loop of \<^verbatim>\<open>querySlice\<close>, for one log.\<close>

definition handleTransfer_egg :: "chain \<Rightarrow> transfer \<Rightarrow> egg_row list \<Rightarrow> error option \<times> egg_row list" where
  "handleTransfer_egg ch ev d =
     enrichAndPersist_egg ch (toLowerCase (args_from ev)) (toLowerCase (args_to ev))
       (args_tokenId ev) (log ev) d"

definition querySlice_egg :: "chain \<Rightarrow> int \<Rightarrow> int \<Rightarrow> egg_row list \<Rightarrow> error option \<times> egg_row list" where
  "querySlice_egg ch start end d =
     (case queryFilter_Transfer ch start end of
        Inl e \<Rightarrow> (Some e, d)
      | Inr logs \<Rightarrow> forEach (handleTransfer_egg ch) logs d)"

subsection \<open>The ERC-1155 monitor (\<^verbatim>\<open>items_erc1155_monitor.js\<close>)\<close>

definition ITEM_TYPES :: "(string \<times> string) list" where
  "ITEM_TYPES =
     [(''4'', ''Bolt''), (''5'', ''Pipe''),
      (''73'', ''Crusader Dust''), (''74'', ''Overseer Dust''), (''75'', ''Athena Dust''),
      (''76'', ''Archon Dust''), (''77'', ''Foxglove Dust''), (''78'', ''Summoner Dust''),
      (''79'', ''Chobo Dust''),
      (''80'', ''Crusader Shard''), (''81'', ''Overseer Shard''), (''82'', ''Athena Shard''),
      (''83'', ''Archon Shard''), (''84'', ''Foxglove Shard''), (''85'', ''Summoner Shard''),
      (''86'', ''Chobo Shard'')]"

definition WATCH_TOKEN_IDS :: "string list" where
  "WATCH_TOKEN_IDS = map fst ITEM_TYPES"

definition itemType :: "nat \<Rightarrow> string" where
  "itemType n = (case map_of ITEM_TYPES (toString n) of Some t \<Rightarrow> t | None \<Rightarrow> ''Unknown'')"

definition enrichAndPersist_items ::
  "config \<Rightarrow> chain \<Rightarrow> string \<Rightarrow> string \<Rightarrow> nat list \<Rightarrow> nat list \<Rightarrow> log_obj \<Rightarrow>
   item_row list \<Rightarrow> error option \<times> item_row list" where
  "enrichAndPersist_items cfg ch from_addr to_addr tokIds amts logObj d =
     (case getBlock ch (log_blockNumber logObj) of
        Inl e \<Rightarrow> (Some e, d)
      | Inr isoDate \<Rightarrow>
          let r = \<lparr>receivedTo = to_addr, sender = from_addr,
                   blockNumber = log_blockNumber logObj, txHash = transactionHash logObj,
                   dateISO = isoDate,
                   tokenIds = map toString tokIds, amounts = map toString amts,
                   itemTypes = map itemType tokIds,
                   totalAmount = toString (foldl (\<lambda>sum amt. sum + amt) 0 amts),
                   contract = CONTRACT_ADDRESS cfg\<rparr>;
              h = toLowerCase (transactionHash logObj)
          in if find (\<lambda>x. toLowerCase (txHash x) = h) d = None
             then (None, sortDb (d @ [r]))
             else (None, d))"

definition handleTransferSingle ::
  "config \<Rightarrow> chain \<Rightarrow> transfer_single \<Rightarrow> item_row list \<Rightarrow> error option \<times> item_row list" where
  "handleTransferSingle cfg ch ev d =
     (let fromAddr = toLowerCase (args_from ev);
          toAddr = toLowerCase (args_to ev);
          id = args_id ev;
          val = args_value ev
      in if id = 0 \<or> val = 0 then (None, d)
         else if toAddr \<noteq> WATCH_WALLET cfg then (None, d)
         else if toString id \<notin> set WATCH_TOKEN_IDS then (None, d)
         else enrichAndPersist_items cfg ch fromAddr toAddr [id] [val] (log ev) d)"

text \<open>
  The loop over the entries of a batch. \<^verbatim>\<open>values\<close> is \<^verbatim>\<open>ev.args[4]\<close>, a \<^verbatim>\<open>Result\<close> of ethers,
  whose index accessor throws \<^verbatim>\<open>RangeError("out of result range")\<close> for an index outside it.
  The loop reads \<^verbatim>\<open>values[i]\<close> for every index of \<^verbatim>\<open>ids\<close>, before any test, and nothing in
  the handler catches: a batch with fewer values than ids makes the handler throw.
\<close>

definition filterBatch :: "nat list \<Rightarrow> nat list \<Rightarrow> error + nat list \<times> nat list" where
  "filterBatch ids vals =
     foldl (\<lambda>acc i.
              case acc of
                Inl e \<Rightarrow> Inl e
              | Inr (filteredIds, filteredValues) \<Rightarrow>
                  if length vals \<le> i then Inl (Error ''out of result range'')
                  else let id = ids ! i;
                           val = vals ! i
                       in if id = 0 \<or> val = 0 then Inr (filteredIds, filteredValues)
                          else if toString id \<notin> set WATCH_TOKEN_IDS
                          then Inr (filteredIds, filteredValues)
                          else Inr (filteredIds @ [id], filteredValues @ [val]))
           (Inr ([], [])) [0..<length ids]"

definition handleTransferBatch ::
  "config \<Rightarrow> chain \<Rightarrow> transfer_batch \<Rightarrow> item_row list \<Rightarrow> error option \<times> item_row list" where
  "handleTransferBatch cfg ch ev d =
     (let fromAddr = toLowerCase (args_from ev);
          toAddr = toLowerCase (args_to ev)
      in if toAddr \<noteq> WATCH_WALLET cfg then (None, d)
         else case filterBatch (args_ids ev) (args_values ev) of
                Inl e \<Rightarrow> (Some e, d)
              | Inr (filteredIds, filteredValues) \<Rightarrow>
                  if length filteredIds > 0
                  then enrichAndPersist_items cfg ch fromAddr toAddr filteredIds filteredValues (log ev) d
                  else (None, d))"

definition querySlice_items ::
  "config \<Rightarrow> chain \<Rightarrow> int \<Rightarrow> int \<Rightarrow> item_row list \<Rightarrow> error option \<times> item_row list" where
  "querySlice_items cfg ch start end d =
     (case queryFilter_TransferSingle ch start end of
        Inl e \<Rightarrow> (Some e, d)
      | Inr singleLogs \<Rightarrow>
          (case queryFilter_TransferBatch ch start end of
             Inl e \<Rightarrow> (Some e, d)
           | Inr batchLogs \<Rightarrow>
               (case forEach (handleTransferSingle cfg ch) singleLogs d of
                  (Some e, d') \<Rightarrow> (Some e, d')
                | (None, d') \<Rightarrow> forEach (handleTransferBatch cfg ch) batchLogs d')))"

subsection \<open>Checkpoint store and the two drivers\<close>

text \<open>
  The files a monitor owns: the record store, the progress file (\<open>None\<close> when it is absent or
  unreadable), and, as a ghost field, the ranges \<^verbatim>\<open>querySlice\<close> has been called with, oldest
  first.
\<close>

record 'db world =
  db :: 'db
  progress :: "int option"
  scanned :: "(int \<times> int) list"

definition loadProgress :: "'db world \<Rightarrow> int" where
  "loadProgress w = (case progress w of None \<Rightarrow> 0 | Some h \<Rightarrow> (if h \<noteq> 0 then h else 0))"

definition saveProgress :: "int \<Rightarrow> 'db world \<Rightarrow> 'db world" where
  "saveProgress height w = w\<lparr>progress := Some height\<rparr>"

definition callQuerySlice ::
  "(int \<Rightarrow> int \<Rightarrow> 'db \<Rightarrow> error option \<times> 'db) \<Rightarrow> int \<Rightarrow> int \<Rightarrow> 'db world \<Rightarrow>
   error option \<times> 'db world" where
  "callQuerySlice querySlice start end w =
     (case querySlice start end (db w) of
        (r, d') \<Rightarrow> (r, w\<lparr>db := d', scanned := scanned w @ [(start, end)]\<rparr>))"

text \<open>
  The states a loop passes through: \<open>iterates b c s t\<close> holds when the loop with condition \<open>b\<close>
  and body \<open>c\<close>, started in \<open>s\<close>, is at some moment at the top of the loop in state \<open>t\<close>.
\<close>

inductive iterates :: "('s \<Rightarrow> bool) \<Rightarrow> ('s \<Rightarrow> 's) \<Rightarrow> 's \<Rightarrow> 's \<Rightarrow> bool" for b c where
  here: "iterates b c s s"
| step: "b s \<Longrightarrow> iterates b c (c s) t \<Longrightarrow> iterates b c s t"

text \<open>
  The loop of \<^verbatim>\<open>scanHistorical\<close>. A loop state is the loop variable, the error thrown out of
  the loop if any, and the files.
\<close>

definition scanCond :: "int \<Rightarrow> int \<times> error option \<times> 'db world \<Rightarrow> bool" where
  "scanCond latest = (\<lambda>(start, thrown, w). thrown = None \<and> start \<le> latest)"

definition scanBody ::
  "(int \<Rightarrow> int \<Rightarrow> 'db \<Rightarrow> error option \<times> 'db) \<Rightarrow> int \<Rightarrow> int \<Rightarrow>
   int \<times> error option \<times> 'db world \<Rightarrow> int \<times> error option \<times> 'db world" where
  "scanBody querySlice chunk latest = (\<lambda>(start, thrown, w).
     let end = min latest (start + chunk)
     in case callQuerySlice querySlice start end w of
          (Some e, w') \<Rightarrow> (start, Some e, w')
        | (None, w') \<Rightarrow> (start + (chunk + 1), None, saveProgress end w'))"

definition scanLoop ::
  "(int \<Rightarrow> int \<Rightarrow> 'db \<Rightarrow> error option \<times> 'db) \<Rightarrow> int \<Rightarrow> int \<Rightarrow>
   int \<times> error option \<times> 'db world \<Rightarrow> (int \<times> error option \<times> 'db world) option" where
  "scanLoop querySlice chunk latest =
     while_option (scanCond latest) (scanBody querySlice chunk latest)"

definition fromBlock :: "config \<Rightarrow> int \<Rightarrow> int \<Rightarrow> int" where
  "fromBlock cfg prog latest =
     (if prog > 0 then max 0 (prog - CONFIRMATIONS cfg)
      else case FROM_BLOCK cfg of
             Some b \<Rightarrow> b
           | None \<Rightarrow> max 0 (latest - INIT_LOOKBACK cfg))"

text \<open>
  \<^verbatim>\<open>scanHistorical\<close> returns \<^verbatim>\<open>latest\<close> (\<open>Inr\<close>) or throws (\<open>Inl\<close>); \<open>None\<close> when its loop never
  exits.
\<close>

definition scanHistorical ::
  "config \<Rightarrow> (error + int) \<Rightarrow> (int \<Rightarrow> int \<Rightarrow> 'db \<Rightarrow> error option \<times> 'db) \<Rightarrow> 'db world \<Rightarrow>
   ((error + int) \<times> 'db world) option" where
  "scanHistorical cfg blockNum querySlice w =
     (case blockNum of
        Inl e \<Rightarrow> Some (Inl e, w)
      | Inr latest \<Rightarrow>
          (case scanLoop querySlice (CHUNK cfg) latest
                  (fromBlock cfg (loadProgress w) latest, None, w) of
             None \<Rightarrow> None
           | Some (start, Some e, w') \<Rightarrow> Some (Inl e, w')
           | Some (start, None, w') \<Rightarrow> Some (Inr latest, w')))"

text \<open>
  The Range Scheduler: the ranges the loop of \<^verbatim>\<open>scanHistorical\<close> visits when no query fails.
  The store plays no part in the ranges, so it is left out; the loop of \<^verbatim>\<open>tick\<close> visits the
  same ranges (\<open>scanLoop_ranges\<close> and \<open>pollLoop_ranges\<close> below).
\<close>

definition chunks :: "int \<Rightarrow> int \<Rightarrow> int \<Rightarrow> (int \<times> int) list option" where
  "chunks start end maxSize =
     map_option (\<lambda>(_, _, w). scanned w)
       (scanLoop (\<lambda>_ _ d. (None, d)) maxSize end
          (start, None, \<lparr>db = (), progress = None, scanned = []\<rparr>))"

text \<open>The heights a sequence of ranges visits, in the order of the visits.\<close>

definition heights :: "(int \<times> int) list \<Rightarrow> int list" where
  "heights rs = concat (map (\<lambda>(s, e). [s..e]) rs)"

text \<open>The loop of \<^verbatim>\<open>tick\<close>.\<close>

definition pollCond :: "int \<Rightarrow> int \<times> error option \<times> 'db world \<Rightarrow> bool" where
  "pollCond safeHead = (\<lambda>(cursor, thrown, w). thrown = None \<and> cursor \<le> safeHead)"

definition pollBody ::
  "(int \<Rightarrow> int \<Rightarrow> 'db \<Rightarrow> error option \<times> 'db) \<Rightarrow> int \<Rightarrow> int \<Rightarrow>
   int \<times> error option \<times> 'db world \<Rightarrow> int \<times> error option \<times> 'db world" where
  "pollBody querySlice chunk safeHead = (\<lambda>(cursor, thrown, w).
     let sliceEnd = min (cursor + chunk) safeHead
     in case callQuerySlice querySlice cursor sliceEnd w of
          (Some e, w') \<Rightarrow> (cursor, Some e, w')
        | (None, w') \<Rightarrow> (sliceEnd + 1, None, w'))"

definition pollLoop ::
  "(int \<Rightarrow> int \<Rightarrow> 'db \<Rightarrow> error option \<times> 'db) \<Rightarrow> int \<Rightarrow> int \<Rightarrow>
   int \<times> error option \<times> 'db world \<Rightarrow> (int \<times> error option \<times> 'db world) option" where
  "pollLoop querySlice chunk safeHead =
     while_option (pollCond safeHead) (pollBody querySlice chunk safeHead)"

text \<open>
  One tick, from the value \<open>lastProcessed\<close> of the closure variable and the files. The result is
  the error the \<^verbatim>\<open>catch\<close> block logged, if any, the new \<open>lastProcessed\<close>, and the files; \<open>None\<close>
  when the loop never exits. The \<^verbatim>\<open>try\<close> block spans the whole body, so a tick has no throwing
  outcome.
\<close>

definition tick ::
  "config \<Rightarrow> (error + int) \<Rightarrow> (int \<Rightarrow> int \<Rightarrow> 'db \<Rightarrow> error option \<times> 'db) \<Rightarrow> int \<times> 'db world \<Rightarrow>
   (error option \<times> int \<times> 'db world) option" where
  "tick cfg blockNum querySlice = (\<lambda>(lastProcessed, w).
     case blockNum of
       Inl e \<Rightarrow> Some (Some e, lastProcessed, w)
     | Inr head \<Rightarrow>
         let safeHead = head - CONFIRMATIONS cfg
         in if safeHead \<le> lastProcessed then Some (None, lastProcessed, w)
            else (case pollLoop querySlice (CHUNK cfg) safeHead (lastProcessed + 1, None, w) of
                    None \<Rightarrow> None
                  | Some (cursor, Some e, w') \<Rightarrow> Some (Some e, lastProcessed, w')
                  | Some (cursor, None, w') \<Rightarrow> Some (None, safeHead, saveProgress safeHead w')))"

text \<open>The first tick of \<^verbatim>\<open>startLivePoll\<close>; the timer then repeats \<open>tick\<close> on the result.\<close>

definition startLivePoll ::
  "config \<Rightarrow> (error + int) \<Rightarrow> (int \<Rightarrow> int \<Rightarrow> 'db \<Rightarrow> error option \<times> 'db) \<Rightarrow> int \<Rightarrow> 'db world \<Rightarrow>
   (error option \<times> int \<times> 'db world) option" where
  "startLivePoll cfg blockNum querySlice startFromBlock w =
     tick cfg blockNum querySlice
       (max 0 (if loadProgress w \<noteq> 0 then loadProgress w else startFromBlock), w)"

text \<open>The drivers of the two scripts.\<close>

definition tick_egg :: "config \<Rightarrow> chain \<Rightarrow> int \<times> egg_row list world \<Rightarrow> (error option \<times> int \<times> egg_row list world) option" where
  "tick_egg cfg ch = tick cfg (getBlockNumber ch) (querySlice_egg ch)"

definition tick_items :: "config \<Rightarrow> chain \<Rightarrow> int \<times> item_row list world \<Rightarrow> (error option \<times> int \<times> item_row list world) option" where
  "tick_items cfg ch = tick cfg (getBlockNumber ch) (querySlice_items cfg ch)"

subsection \<open>Notions used in the statements and proofs\<close>

text \<open>
  The key a record is deduplicated by: the lower-cased transaction hash in the ERC-1155 monitor,
  the result of \<open>makeKey\<close> in the ERC-721 monitor. \<open>key_egg\<close> is the key \<open>makeKey\<close> gives the
  record built for a log with the given hash and token.
\<close>

definition keys_items :: "item_row list \<Rightarrow> string set" where
  "keys_items d = (\<lambda>r. toLowerCase (txHash r)) ` set d"

definition keys_egg :: "egg_row list \<Rightarrow> string set" where
  "keys_egg d = makeKey ` set d"

definition key_egg :: "string \<Rightarrow> nat \<Rightarrow> string" where
  "key_egg h tok = toLowerCase h @ ''_'' @ toString tok"

text \<open>
  The stores a monitor can hold: the empty store (an absent or unreadable file is read as the
  empty list), and whatever a handler leaves behind, whether it returned or threw, for any
  event and any answers of the chain client.
\<close>

inductive reachable_items :: "config \<Rightarrow> item_row list \<Rightarrow> bool" for cfg where
  empty_items: "reachable_items cfg []"
| single: "reachable_items cfg d \<Longrightarrow> reachable_items cfg (snd (handleTransferSingle cfg ch ev d))"
| batch: "reachable_items cfg d \<Longrightarrow> reachable_items cfg (snd (handleTransferBatch cfg ch ev d))"

inductive reachable_egg :: "egg_row list \<Rightarrow> bool" where
  empty_egg: "reachable_egg []"
| transfer: "reachable_egg d \<Longrightarrow> reachable_egg (snd (handleTransfer_egg ch ev d))"

text \<open>
  The test the loop of \<^verbatim>\<open>handleTransferBatch\<close> applies to one entry, the events the two
  ERC-1155 handlers drop without calling \<^verbatim>\<open>enrichAndPersist\<close>, and the batch events on which
  the handler throws: those to the watched wallet with fewer values than ids.
\<close>

definition watched :: "nat \<times> nat \<Rightarrow> bool" where
  "watched = (\<lambda>(id, val). id \<noteq> 0 \<and> val \<noteq> 0 \<and> toString id \<in> set WATCH_TOKEN_IDS)"

definition skips_single :: "config \<Rightarrow> transfer_single \<Rightarrow> bool" where
  "skips_single cfg ev \<longleftrightarrow>
     args_id ev = 0 \<or> args_value ev = 0 \<or> toLowerCase (args_to ev) \<noteq> WATCH_WALLET cfg \<or>
     toString (args_id ev) \<notin> set WATCH_TOKEN_IDS"

definition skips_batch :: "config \<Rightarrow> transfer_batch \<Rightarrow> bool" where
  "skips_batch cfg ev \<longleftrightarrow>
     toLowerCase (args_to ev) \<noteq> WATCH_WALLET cfg \<or>
     length (args_ids ev) \<le> length (args_values ev) \<and>
     filter watched (zip (args_ids ev) (args_values ev)) = []"

definition throws_batch :: "config \<Rightarrow> transfer_batch \<Rightarrow> bool" where
  "throws_batch cfg ev \<longleftrightarrow>
     toLowerCase (args_to ev) = WATCH_WALLET cfg \<and>
     length (args_values ev) < length (args_ids ev)"

text \<open>
  An event is settled in a store when handling it again cannot change the store: it is dropped
  by the filter, or its key is already present.
\<close>

definition settled_items :: "config \<Rightarrow> bool \<Rightarrow> 'a event_scheme \<Rightarrow> item_row list \<Rightarrow> bool" where
  "settled_items cfg skipped ev d \<longleftrightarrow>
     skipped \<or> toLowerCase (transactionHash (log ev)) \<in> keys_items d"

definition settled_egg :: "transfer \<Rightarrow> egg_row list \<Rightarrow> bool" where
  "settled_egg ev d \<longleftrightarrow> key_egg (transactionHash (log ev)) (args_tokenId ev) \<in> keys_egg d"

text \<open>
  The number of iterations a loop over heights has left, as a bound: the distance of the loop
  variable to the upper end, and nothing once an error is thrown.
\<close>

definition remaining :: "int \<Rightarrow> int \<times> error option \<times> 'db world \<Rightarrow> nat" where
  "remaining bound = (\<lambda>(i, thrown, w). if thrown = None then nat (bound + 1 - i) + 1 else 0)"

text \<open>
  Consecutive ranges are adjacent when each begins one above the end of the one before it.
\<close>

fun adjacent :: "(int \<times> int) list \<Rightarrow> bool" where
  "adjacent ((s, e) # (s', e') # rs) \<longleftrightarrow> s' = e + 1 \<and> adjacent ((s', e') # rs)"
| "adjacent rs \<longleftrightarrow> True"

text \<open>
  Loop invariants. For the Range Scheduler: consecutive ranges are adjacent, they are non-empty and no
  wider than the chunk size, and they visit exactly the heights from the first one up to the
  loop variable. For a
  tick: the progress file is untouched and every range queried so far lies at or below the safe
  head.
\<close>

definition chunkInv :: "int \<Rightarrow> int \<Rightarrow> int \<Rightarrow> int \<times> error option \<times> unit world \<Rightarrow> bool" where
  "chunkInv s0 latest chunk = (\<lambda>(start, thrown, w).
     thrown = None \<and> s0 \<le> start \<and>
     heights (scanned w) = [s0..min latest (start - 1)] \<and>
     (\<forall>(s, e) \<in> set (scanned w). s \<le> e \<and> e - s \<le> chunk) \<and>
     adjacent (scanned w) \<and>
     (scanned w \<noteq> [] \<longrightarrow> snd (last (scanned w)) = min latest (start - 1)))"

definition boundedTrace :: "int \<Rightarrow> 'db world \<Rightarrow> int \<times> error option \<times> 'db world \<Rightarrow> bool" where
  "boundedTrace safeHead w0 = (\<lambda>(cursor, thrown, w).
     progress w = progress w0 \<and>
     (\<exists>rs. scanned w = scanned w0 @ rs \<and> (\<forall>(s, e) \<in> set rs. s \<le> safeHead \<and> e \<le> safeHead)))"

text \<open>
  The run of the Range Scheduler from the second range on, seen as part of the run from the
  first: the first range is put in front of the ranges, and the progress file holds its end
  until a later range is saved.
\<close>

definition withFirst :: "int \<times> int \<Rightarrow> int \<times> error option \<times> unit world \<Rightarrow> int \<times> error option \<times> unit world" where
  "withFirst r = (\<lambda>(start, thrown, w).
     (start, thrown,
      w\<lparr>scanned := r # scanned w,
        progress := (case progress w of None \<Rightarrow> Some (snd r) | Some p \<Rightarrow> Some p)\<rparr>))"

subsection \<open>Concrete inputs\<close>

text \<open>
  A configuration with the default confirmation depth and a chunk size of 100, one transaction
  at height 150 carrying transfers to the watched wallet, and a chain client that answers every
  call. The transaction is seen as two ERC-721 transfers (tokens 1 and 2) by the first monitor,
  and as one single transfer and one batch by the second.
\<close>

definition ex_cfg :: config where
  "ex_cfg = \<lparr>env_WATCH_WALLET = ''0x00000000000000000000000000000000000000AA'',
             CONTRACT_ADDRESS = ''0x50A5eb2B3B289D4cFda0e307609b655175a275b1'',
             CONFIRMATIONS = 2, CHUNK = 100, INIT_LOOKBACK = 50000, FROM_BLOCK = None\<rparr>"

definition ex_log :: log_obj where
  "ex_log = \<lparr>log_blockNumber = 150,
             transactionHash = ''0xAB00000000000000000000000000000000000000000000000000000000000001''\<rparr>"

definition ex_transfer :: "nat \<Rightarrow> transfer" where
  "ex_transfer tok = \<lparr>args_from = ''0x00000000000000000000000000000000000000b1'',
                      args_to = ''0x00000000000000000000000000000000000000aA'',
                      log = ex_log, args_tokenId = tok\<rparr>"

definition ex_single :: transfer_single where
  "ex_single = \<lparr>args_from = ''0x00000000000000000000000000000000000000b1'',
                args_to = ''0x00000000000000000000000000000000000000aA'',
                log = ex_log, args_id = 5, args_value = 3\<rparr>"

definition ex_batch :: transfer_batch where
  "ex_batch = \<lparr>args_from = ''0x00000000000000000000000000000000000000b1'',
               args_to = ''0x00000000000000000000000000000000000000aA'',
               log = ex_log, args_ids = [5, 999], args_values = [3, 7]\<rparr>"

definition ex_chain :: chain where
  "ex_chain = \<lparr>getBlockNumber = Inr 250,
               getBlock = (\<lambda>_. Inr ''2025-01-01T00:00:00.000Z''),
               queryFilter_Transfer = (\<lambda>s e. Inr (if s \<le> 150 \<and> 150 \<le> e then [ex_transfer 1, ex_transfer 2] else [])),
               queryFilter_TransferSingle = (\<lambda>s e. Inr (if s \<le> 150 \<and> 150 \<le> e then [ex_single] else [])),
               queryFilter_TransferBatch = (\<lambda>s e. Inr (if s \<le> 150 \<and> 150 \<le> e then [ex_batch] else [])),
               fetchEggType = (\<lambda>_. ''Unknown'')\<rparr>"

text \<open>The records the monitors build for these events, and an address that is not watched.\<close>

definition ex_item_row :: item_row where
  "ex_item_row =
     \<lparr>receivedTo = ''0x00000000000000000000000000000000000000aa'',
      sender = ''0x00000000000000000000000000000000000000b1'',
      blockNumber = 150,
      txHash = ''0xAB00000000000000000000000000000000000000000000000000000000000001'',
      dateISO = ''2025-01-01T00:00:00.000Z'', tokenIds = [''5''],
      amounts = [''3''], itemTypes = [''Pipe''], totalAmount = ''3'',
      contract = ''0x50A5eb2B3B289D4cFda0e307609b655175a275b1''\<rparr>"

definition ex_egg_row :: "string \<Rightarrow> egg_row" where
  "ex_egg_row tok =
     \<lparr>receivedTo = ''0x00000000000000000000000000000000000000aa'',
      sender = ''0x00000000000000000000000000000000000000b1'',
      blockNumber = 150,
      txHash = ''0xAB00000000000000000000000000000000000000000000000000000000000001'',
      dateISO = ''2025-01-01T00:00:00.000Z'', tokenId = tok, eggType = ''Unknown''\<rparr>"


text \<open>
  The files of the ERC-1155 monitor after a backfill up to height 100 that found nothing; files
  of a monitor whose store does not matter, with a given progress file; and a \<^verbatim>\<open>querySlice\<close>
  that fails on every range ending above height 200.
\<close>

definition ex_files :: "item_row list world" where
  "ex_files = \<lparr>db = [], progress = Some 100, scanned = []\<rparr>"

definition ex_world :: "int option \<Rightarrow> unit world" where
  "ex_world p = \<lparr>db = (), progress = p, scanned = []\<rparr>"

definition ex_failing :: "int \<Rightarrow> int \<Rightarrow> unit \<Rightarrow> error option \<times> unit" where
  "ex_failing start end d = (if 200 < end then (Some (Error ''timeout''), d) else (None, d))"

lemmas ex_defs = ex_cfg_def ex_log_def ex_transfer_def ex_single_def ex_batch_def ex_chain_def

section \<open>Loops\<close>

subsection \<open>States of a loop and its result\<close>

lemma iterates_snoc: "iterates b c s t \<Longrightarrow> b t \<Longrightarrow> iterates b c s (c t)"
  by (induction rule: iterates.induct) (auto intro: iterates.intros)

lemma iterates_invariant:
  assumes "iterates b c s t" and "P s" and "\<And>u. P u \<Longrightarrow> b u \<Longrightarrow> P (c u)"
  shows "P t"
  using assms by (induction rule: iterates.induct) auto

lemma while_option_iterates:
  assumes "while_option b c s = Some t"
  shows "iterates b c s t"
  by (rule while_option_rule [where P = "iterates b c s", OF _ assms])
     (auto intro: iterates.here iterates_snoc)

lemma iterates_while_option:
  "iterates b c s t \<Longrightarrow> \<not> b t \<Longrightarrow> while_option b c s = Some t"
proof (induction rule: iterates.induct)
  case (here s)
  then show ?case by (subst while_option_unfold) simp
next
  case (step s t)
  then show ?case by (subst while_option_unfold) simp
qed

subsection \<open>Both loops exit when the chunk size is not negative\<close>

lemma scanBody_decreases:
  assumes "0 \<le> chunk" and "scanCond latest s"
  shows "remaining latest (scanBody querySlice chunk latest s) < remaining latest s"
  using assms
  by (cases s) (auto simp: remaining_def scanCond_def scanBody_def Let_def split: prod.splits option.splits)

lemma scanLoop_returns:
  assumes "0 \<le> chunk"
  shows "\<exists>t. scanLoop querySlice chunk latest s = Some t"
  unfolding scanLoop_def
  by (rule measure_while_option_Some [where P = "\<lambda>_. True" and f = "remaining latest"])
     (simp_all add: scanBody_decreases [OF assms])

lemma pollBody_decreases:
  assumes "0 \<le> chunk" and "pollCond safeHead s"
  shows "remaining safeHead (pollBody querySlice chunk safeHead s) < remaining safeHead s"
  using assms
  by (cases s) (auto simp: remaining_def pollCond_def pollBody_def Let_def split: prod.splits option.splits)

lemma pollLoop_returns:
  assumes "0 \<le> chunk"
  shows "\<exists>t. pollLoop querySlice chunk safeHead s = Some t"
  unfolding pollLoop_def
  by (rule measure_while_option_Some [where P = "\<lambda>_. True" and f = "remaining safeHead"])
     (simp_all add: pollBody_decreases [OF assms])

subsection \<open>The ranges of the backfill loop\<close>

lemma heights_snoc: "heights (rs @ [(s, e)]) = heights rs @ [s..e]"
  by (simp add: heights_def)

lemma upto_join: "s0 \<le> start \<Longrightarrow> start \<le> e \<Longrightarrow> [s0..start - 1] @ [start..e] = [s0..e]"
  using upto_split1 [of s0 start e] by simp

lemma adjacent_snoc:
  "adjacent (rs @ [(s, e)]) \<longleftrightarrow> adjacent rs \<and> (rs = [] \<or> s = snd (last rs) + 1)"
  by (induction rs rule: adjacent.induct) auto

lemma chunkInv_step:
  assumes "0 \<le> chunk" and "chunkInv s0 latest chunk s" and "scanCond latest s"
  shows "chunkInv s0 latest chunk (scanBody (\<lambda>_ _ d. (None, d)) chunk latest s)"
proof -
  obtain start thrown w where s: "s = (start, thrown, w)" by (cases s)
  from assms(3) s have le: "start \<le> latest" and thr: "thrown = None"
    by (simp_all add: scanCond_def)
  from assms(2) s have s0: "s0 \<le> start"
    and h: "heights (scanned w) = [s0..min latest (start - 1)]"
    and r: "\<forall>(a, b) \<in> set (scanned w). a \<le> b \<and> b - a \<le> chunk"
    and adj: "adjacent (scanned w)"
    and l: "scanned w \<noteq> [] \<longrightarrow> snd (last (scanned w)) = min latest (start - 1)"
    by (simp_all add: chunkInv_def)
  let ?e = "min latest (start + chunk)"
  have e: "start \<le> ?e" using le assms(1) by simp
  have m: "min latest (start - 1) = start - 1" using le by simp
  have "heights (scanned w @ [(start, ?e)]) = [s0..?e]"
    using s0 e by (simp add: heights_snoc h m upto_join)
  moreover have "?e - start \<le> chunk" by simp
  moreover have "adjacent (scanned w @ [(start, ?e)])"
    using adj l m by (auto simp: adjacent_snoc)
  ultimately show ?thesis
    using s s0 e r assms(1)
    by (simp add: chunkInv_def scanBody_def callQuerySlice_def saveProgress_def Let_def)
qed

lemma chunks_cover:
  assumes "0 \<le> maxSize"
  shows "\<exists>rs. chunks start end maxSize = Some rs \<and> heights rs = [start..end] \<and>
           (\<forall>(s, e) \<in> set rs. s \<le> e \<and> e - s \<le> maxSize) \<and> adjacent rs"
proof -
  let ?s = "(start, None :: error option, \<lparr>db = (), progress = None, scanned = []\<rparr>)"
  obtain t where t: "scanLoop (\<lambda>_ _ d. (None, d)) maxSize end ?s = Some t"
    using scanLoop_returns [OF assms] by blast
  have init: "chunkInv start end maxSize ?s"
    by (simp add: chunkInv_def heights_def)
  have inv: "chunkInv start end maxSize t"
    using t unfolding scanLoop_def
    by (rule while_option_rule [rotated]) (auto intro: init chunkInv_step [OF assms])
  have stop: "\<not> scanCond end t"
    using t unfolding scanLoop_def by (rule while_option_stop)
  obtain st thrown w where tt: "t = (st, thrown, w)" by (cases t)
  from inv stop tt have "end < st" by (simp add: chunkInv_def scanCond_def)
  then have "min end (st - 1) = end" by simp
  with inv tt have "heights (scanned w) = [start..end]"
    and "\<forall>(s, e) \<in> set (scanned w). s \<le> e \<and> e - s \<le> maxSize"
    and "adjacent (scanned w)"
    by (simp_all add: chunkInv_def)
  moreover have "chunks start end maxSize = Some (scanned w)"
    by (simp add: chunks_def t tt)
  ultimately show ?thesis by blast
qed

lemma chunks_empty: "end < start \<Longrightarrow> chunks start end maxSize = Some []"
  by (simp add: chunks_def scanLoop_def scanCond_def while_option_unfold)

text \<open>
  With a negative chunk size the loop variable never grows, so the loop never exits.
\<close>

lemma scanCond_alt: "scanCond latest s \<longleftrightarrow> fst (snd s) = None \<and> fst s \<le> latest"
  by (cases s) (simp add: scanCond_def)

lemma scanBody_stuck_step:
  assumes "chunk < 0" and "fst s \<le> latest \<and> fst (snd s) = None"
  shows "fst (scanBody (\<lambda>_ _ d. (None, d)) chunk latest s) \<le> latest \<and>
         fst (snd (scanBody (\<lambda>_ _ d. (None, d)) chunk latest s)) = None"
  using assms by (cases s) (simp add: scanBody_def callQuerySlice_def Let_def)

lemma scanBody_stuck:
  assumes "chunk < 0" and "fst s \<le> latest \<and> fst (snd s) = None"
  shows "fst ((scanBody (\<lambda>_ _ d. (None, d)) chunk latest ^^ k) s) \<le> latest \<and>
         fst (snd ((scanBody (\<lambda>_ _ d. (None, d)) chunk latest ^^ k) s)) = None"
proof (induction k)
  case 0
  then show ?case using assms by simp
next
  case (Suc k)
  then show ?case using scanBody_stuck_step [OF assms(1)] by simp
qed

lemma chunks_diverges: "chunks 0 0 (- 1) = None"
proof -
  let ?s = "(0 :: int, None :: error option, \<lparr>db = (), progress = None, scanned = []\<rparr>)"
  have "scanCond 0 ((scanBody (\<lambda>_ _ d. (None, d)) (- 1) 0 ^^ k) ?s)" for k
    using scanBody_stuck [of "- 1" ?s 0 k]
    by (simp add: scanCond_alt)
  then have "while_option (scanCond 0) (scanBody (\<lambda>_ _ d. (None, d)) (- 1) 0) ?s = None"
    by (simp add: while_option_def)
  then show ?thesis by (simp add: chunks_def scanLoop_def)
qed

lemma scanBody_extends:
  "\<exists>rs. scanned (snd (snd (scanBody querySlice chunk latest (start, thrown, w)))) = scanned w @ rs"
  by (cases "querySlice start (min latest (start + chunk)) (db w)")
     (auto simp: scanBody_def callQuerySlice_def saveProgress_def Let_def split: option.splits)

lemma scanLoop_extends:
  assumes "scanLoop querySlice chunk latest (start, thrown, w) = Some (start', thrown', w')"
  shows "\<exists>rs. scanned w' = scanned w @ rs"
proof -
  have "\<exists>rs. scanned (snd (snd (start', thrown', w'))) = scanned w @ rs"
    using assms unfolding scanLoop_def
  proof (rule while_option_rule [rotated])
    fix s :: "int \<times> error option \<times> 'a world"
    assume "\<exists>rs. scanned (snd (snd s)) = scanned w @ rs"
    then obtain rs where rs: "scanned (snd (snd s)) = scanned w @ rs" ..
    obtain a b c where s: "s = (a, b, c)" by (cases s)
    from scanBody_extends [of querySlice chunk latest a b c] obtain rs'
      where "scanned (snd (snd (scanBody querySlice chunk latest s))) = scanned c @ rs'"
      using s by auto
    with rs s have "scanned (snd (snd (scanBody querySlice chunk latest s))) = scanned w @ (rs @ rs')"
      by simp
    then show "\<exists>rs. scanned (snd (snd (scanBody querySlice chunk latest s))) = scanned w @ rs" ..
  qed simp
  then show ?thesis by simp
qed

lemma scanLoop_first:
  assumes "scanLoop querySlice chunk latest (start, None, w) = Some (start', thrown', w')"
    and "start \<le> latest"
  shows "\<exists>rs. scanned w' = scanned w @ (start, min latest (start + chunk)) # rs"
proof -
  obtain a b c where b: "scanBody querySlice chunk latest (start, None, w) = (a, b, c)"
    by (cases "scanBody querySlice chunk latest (start, None, w)")
  have c: "scanned c = scanned w @ [(start, min latest (start + chunk))]"
    using b
    by (cases "querySlice start (min latest (start + chunk)) (db w)")
       (auto simp: scanBody_def callQuerySlice_def saveProgress_def Let_def split: option.splits)
  have "scanLoop querySlice chunk latest (a, b, c) = Some (start', thrown', w')"
    using assms b unfolding scanLoop_def
    by (subst (asm) while_option_unfold) (simp add: scanCond_def)
  from scanLoop_extends [OF this] obtain rs where "scanned w' = scanned c @ rs" ..
  with c show ?thesis by simp
qed

lemma scanHistorical_first:
  assumes "scanHistorical cfg (Inr latest) querySlice w = Some (r, w')"
    and "fromBlock cfg (loadProgress w) latest \<le> latest"
  shows "\<exists>rs. scanned w' = scanned w @
           (fromBlock cfg (loadProgress w) latest,
            min latest (fromBlock cfg (loadProgress w) latest + CHUNK cfg)) # rs"
proof -
  from assms(1) obtain a b c where
    l: "scanLoop querySlice (CHUNK cfg) latest (fromBlock cfg (loadProgress w) latest, None, w)
          = Some (a, b, c)" and w: "w' = c"
    by (auto simp: scanHistorical_def split: option.splits)
  from scanLoop_first [OF l assms(2)] w show ?thesis by simp
qed

lemma loadProgress_eq: "loadProgress w = (case progress w of None \<Rightarrow> 0 | Some h \<Rightarrow> h)"
  by (simp add: loadProgress_def split: option.splits)

subsection \<open>The tick\<close>

lemma boundedTrace_step:
  assumes "boundedTrace safeHead w0 s" and "pollCond safeHead s"
  shows "boundedTrace safeHead w0 (pollBody querySlice chunk safeHead s)"
proof -
  obtain cursor thrown w where s: "s = (cursor, thrown, w)" by (cases s)
  from assms(2) s have c: "cursor \<le> safeHead" by (simp add: pollCond_def)
  from assms(1) s obtain rs where p: "progress w = progress w0"
    and rs: "scanned w = scanned w0 @ rs" "\<forall>(a, b) \<in> set rs. a \<le> safeHead \<and> b \<le> safeHead"
    by (auto simp: boundedTrace_def)
  obtain r d' where q: "querySlice cursor (min (cursor + chunk) safeHead) (db w) = (r, d')"
    by (cases "querySlice cursor (min (cursor + chunk) safeHead) (db w)")
  have "scanned w @ [(cursor, min (cursor + chunk) safeHead)]
          = scanned w0 @ (rs @ [(cursor, min (cursor + chunk) safeHead)])"
    using rs(1) by simp
  moreover have "\<forall>(a, b) \<in> set (rs @ [(cursor, min (cursor + chunk) safeHead)]).
                   a \<le> safeHead \<and> b \<le> safeHead"
    using rs(2) c by auto
  ultimately have "\<exists>rs'. scanned w @ [(cursor, min (cursor + chunk) safeHead)] = scanned w0 @ rs' \<and>
                     (\<forall>(a, b) \<in> set rs'. a \<le> safeHead \<and> b \<le> safeHead)"
    by blast
  then show ?thesis
    using s p q
    by (cases r) (simp_all add: boundedTrace_def pollBody_def callQuerySlice_def Let_def)
qed

lemma boundedTrace_init: "boundedTrace safeHead w (cursor, thrown, w)"
  by (simp add: boundedTrace_def)

lemma poll_iterates_bounded:
  assumes "iterates (pollCond safeHead) (pollBody querySlice chunk safeHead) (cursor, thrown, w) t"
  shows "boundedTrace safeHead w t"
  using assms boundedTrace_init
  by (rule iterates_invariant) (rule boundedTrace_step)

lemma pollLoop_bounded:
  assumes "pollLoop querySlice chunk safeHead (cursor, thrown, w) = Some t"
  shows "boundedTrace safeHead w t"
  using assms unfolding pollLoop_def
  by (intro poll_iterates_bounded while_option_iterates)

lemma tick_Inl: "tick cfg (Inl e) querySlice (lastProcessed, w) = Some (Some e, lastProcessed, w)"
  by (simp add: tick_def)

lemma tick_idle:
  "head - CONFIRMATIONS cfg \<le> lastProcessed \<Longrightarrow>
   tick cfg (Inr head) querySlice (lastProcessed, w) = Some (None, lastProcessed, w)"
  by (simp add: tick_def)

lemma tick_run:
  "lastProcessed < head - CONFIRMATIONS cfg \<Longrightarrow>
   tick cfg (Inr head) querySlice (lastProcessed, w) =
     (case pollLoop querySlice (CHUNK cfg) (head - CONFIRMATIONS cfg) (lastProcessed + 1, None, w) of
        None \<Rightarrow> None
      | Some (cursor, Some e, w') \<Rightarrow> Some (Some e, lastProcessed, w')
      | Some (cursor, None, w') \<Rightarrow>
          Some (None, head - CONFIRMATIONS cfg, saveProgress (head - CONFIRMATIONS cfg) w'))"
  by (simp add: tick_def Let_def)

lemma tick_cases:
  assumes "tick cfg blockNum querySlice (lastProcessed, w) = Some (logged, lastProcessed', w')"
  obtains
    (head_failed) e where "blockNum = Inl e" "logged = Some e" "lastProcessed' = lastProcessed" "w' = w"
  | (nothing_new) head where "blockNum = Inr head" "head - CONFIRMATIONS cfg \<le> lastProcessed"
      "logged = None" "lastProcessed' = lastProcessed" "w' = w"
  | (slice_failed) head cursor e where "blockNum = Inr head" "lastProcessed < head - CONFIRMATIONS cfg"
      "pollLoop querySlice (CHUNK cfg) (head - CONFIRMATIONS cfg) (lastProcessed + 1, None, w)
         = Some (cursor, Some e, w')"
      "logged = Some e" "lastProcessed' = lastProcessed"
  | (advanced) head cursor w1 where "blockNum = Inr head" "lastProcessed < head - CONFIRMATIONS cfg"
      "pollLoop querySlice (CHUNK cfg) (head - CONFIRMATIONS cfg) (lastProcessed + 1, None, w)
         = Some (cursor, None, w1)"
      "logged = None" "lastProcessed' = head - CONFIRMATIONS cfg"
      "w' = saveProgress (head - CONFIRMATIONS cfg) w1"
proof (cases blockNum)
  case (Inl e)
  with assms show ?thesis by (intro head_failed [of e]) (simp_all add: tick_Inl)
next
  case (Inr head)
  show ?thesis
  proof (cases "head - CONFIRMATIONS cfg \<le> lastProcessed")
    case True
    with assms Inr show ?thesis by (intro nothing_new [of head]) (simp_all add: tick_idle)
  next
    case False
    then have lt: "lastProcessed < head - CONFIRMATIONS cfg" by simp
    from assms Inr obtain cursor thrown w1 where
      l: "pollLoop querySlice (CHUNK cfg) (head - CONFIRMATIONS cfg) (lastProcessed + 1, None, w)
            = Some (cursor, thrown, w1)"
      by (cases "pollLoop querySlice (CHUNK cfg) (head - CONFIRMATIONS cfg) (lastProcessed + 1, None, w)")
         (auto simp: tick_run [OF lt])
    show ?thesis
    proof (cases thrown)
      case None
      have "tick cfg (Inr head) querySlice (lastProcessed, w) =
              Some (None, head - CONFIRMATIONS cfg, saveProgress (head - CONFIRMATIONS cfg) w1)"
        by (simp add: tick_run [OF lt] l None)
      with assms Inr have "(logged, lastProcessed', w') =
              (None, head - CONFIRMATIONS cfg, saveProgress (head - CONFIRMATIONS cfg) w1)"
        by auto
      then have r: "logged = None" "lastProcessed' = head - CONFIRMATIONS cfg"
        "w' = saveProgress (head - CONFIRMATIONS cfg) w1"
        by simp_all
      from l None have pl: "pollLoop querySlice (CHUNK cfg) (head - CONFIRMATIONS cfg)
          (lastProcessed + 1, None, w) = Some (cursor, None, w1)"
        by simp
      show ?thesis by (rule advanced [OF Inr lt pl r])
    next
      case (Some e)
      have "tick cfg (Inr head) querySlice (lastProcessed, w) = Some (Some e, lastProcessed, w1)"
        by (simp add: tick_run [OF lt] l Some)
      with assms Inr have "(logged, lastProcessed', w') = (Some e, lastProcessed, w1)"
        by auto
      then have r: "logged = Some e" "lastProcessed' = lastProcessed" "w1 = w'"
        by simp_all
      from l Some r have pl: "pollLoop querySlice (CHUNK cfg) (head - CONFIRMATIONS cfg)
          (lastProcessed + 1, None, w) = Some (cursor, Some e, w')"
        by simp
      show ?thesis by (rule slice_failed [OF Inr lt pl r(1,2)])
    qed
  qed
qed

lemma tick_returns:
  assumes "0 \<le> CHUNK cfg"
  shows "\<exists>r. tick cfg blockNum querySlice (lastProcessed, w) = Some r"
proof (cases blockNum)
  case (Inl e)
  then show ?thesis by (simp add: tick_def)
next
  case (Inr head)
  obtain t where t: "pollLoop querySlice (CHUNK cfg) (head - CONFIRMATIONS cfg) (lastProcessed + 1, None, w) = Some t"
    using pollLoop_returns [OF assms] by blast
  show ?thesis
  proof (cases "head - CONFIRMATIONS cfg \<le> lastProcessed")
    case True
    with Inr show ?thesis by (simp add: tick_idle)
  next
    case False
    with Inr t show ?thesis
      by (cases t) (simp add: tick_run split: option.splits)
  qed
qed

lemma tick_scans_below_safeHead:
  assumes "tick cfg (Inr head) querySlice (lastProcessed, w) = Some (logged, lastProcessed', w')"
  shows "\<exists>rs. scanned w' = scanned w @ rs \<and>
           (\<forall>(s, e) \<in> set rs. s \<le> head - CONFIRMATIONS cfg \<and> e \<le> head - CONFIRMATIONS cfg)"
  using assms
proof (cases rule: tick_cases)
  case (slice_failed head' cursor e)
  then show ?thesis using pollLoop_bounded [OF slice_failed(3)]
    by (simp add: boundedTrace_def)
next
  case (advanced head' cursor w1)
  then show ?thesis using pollLoop_bounded [OF advanced(3)]
    by (simp add: boundedTrace_def saveProgress_def)
qed simp_all

lemma tick_error_keeps_checkpoint:
  assumes "tick cfg blockNum querySlice (lastProcessed, w) = Some (Some e, lastProcessed', w')"
  shows "lastProcessed' = lastProcessed \<and> progress w' = progress w"
  using assms
proof (cases rule: tick_cases)
  case (slice_failed head cursor e')
  then show ?thesis using pollLoop_bounded [OF slice_failed(3)]
    by (simp add: boundedTrace_def)
qed simp_all

lemma tick_slice_fails:
  assumes "lastProcessed < head - CONFIRMATIONS cfg"
    and "iterates (pollCond (head - CONFIRMATIONS cfg))
           (pollBody querySlice (CHUNK cfg) (head - CONFIRMATIONS cfg))
           (lastProcessed + 1, None, w) (cursor, Some e, w')"
  shows "tick cfg (Inr head) querySlice (lastProcessed, w) = Some (Some e, lastProcessed, w')
         \<and> progress w' = progress w"
proof -
  have "\<not> pollCond (head - CONFIRMATIONS cfg) (cursor, Some e, w')"
    by (simp add: pollCond_def)
  with assms(2) have "pollLoop querySlice (CHUNK cfg) (head - CONFIRMATIONS cfg)
      (lastProcessed + 1, None, w) = Some (cursor, Some e, w')"
    unfolding pollLoop_def by (rule iterates_while_option)
  moreover have "progress w' = progress w"
    using poll_iterates_bounded [OF assms(2)] by (simp add: boundedTrace_def)
  ultimately show ?thesis using assms(1) by (simp add: tick_run)
qed

subsection \<open>Both drivers follow the Range Scheduler\<close>

text \<open>
  Whatever \<^verbatim>\<open>querySlice\<close> does to the store, a backfill or a tick that meets no error queries
  exactly the ranges of \<open>chunks\<close>: the two loops compute the same ranges.
\<close>

lemma iterates_stuck: "iterates b c s t \<Longrightarrow> \<not> b s \<Longrightarrow> t = s"
  by (induction rule: iterates.induct) auto

lemma withFirst_cond: "scanCond latest s = scanCond latest (withFirst r s)"
  by (cases s) (simp add: scanCond_def withFirst_def)

lemma withFirst_body:
  "withFirst r (scanBody (\<lambda>_ _ d. (None, d)) chunk latest s)
     = scanBody (\<lambda>_ _ d. (None, d)) chunk latest (withFirst r s)"
  by (cases s) (simp add: scanBody_def callQuerySlice_def saveProgress_def withFirst_def Let_def)

lemma chunks_unfold:
  assumes "start \<le> latest"
  shows "chunks start latest chunk =
           map_option ((#) (start, min latest (start + chunk)))
             (chunks (start + (chunk + 1)) latest chunk)"
proof -
  let ?c = "scanBody (\<lambda>_ _ d. (None, d)) chunk latest"
  let ?b = "scanCond latest"
  let ?w0 = "\<lparr>db = (), progress = None, scanned = []\<rparr> :: unit world"
  let ?r = "(start, min latest (start + chunk))"
  have first: "?c (start, None, ?w0) = withFirst ?r (start + (chunk + 1), None, ?w0)"
    by (simp add: scanBody_def callQuerySlice_def saveProgress_def withFirst_def Let_def)
  have "while_option ?b ?c (start, None, ?w0) = while_option ?b ?c (?c (start, None, ?w0))"
    using assms by (subst while_option_unfold) (simp add: scanCond_def)
  also have "\<dots> = map_option (withFirst ?r) (while_option ?b ?c (start + (chunk + 1), None, ?w0))"
    unfolding first
    by (rule while_option_commute [symmetric]) (simp_all add: withFirst_cond [symmetric] withFirst_body)
  finally show ?thesis
    by (simp add: chunks_def scanLoop_def option.map_comp comp_def withFirst_def split_def)
qed

lemma scan_iterates_ranges:
  assumes "iterates (scanCond latest) (scanBody querySlice chunk latest) s t"
    and "fst (snd s) = None" and "\<not> scanCond latest t" and "fst (snd t) = None"
  shows "\<exists>rs. chunks (fst s) latest chunk = Some rs \<and>
           scanned (snd (snd t)) = scanned (snd (snd s)) @ rs"
  using assms
proof (induction rule: iterates.induct)
  case (here s)
  then have "latest < fst s" by (cases s) (simp add: scanCond_def)
  then show ?case by (simp add: chunks_empty)
next
  case (step s t)
  obtain start thrown w where s: "s = (start, thrown, w)" by (cases s)
  with step.hyps(1) step.prems(1) have le: "start \<le> latest" and thr: "thrown = None"
    by (simp_all add: scanCond_def)
  obtain r d' where q: "querySlice start (min latest (start + chunk)) (db w) = (r, d')"
    by (cases "querySlice start (min latest (start + chunk)) (db w)")
  show ?case
  proof (cases r)
    case (Some e)
    with s q have b: "scanBody querySlice chunk latest s =
        (start, Some e, w\<lparr>db := d', scanned := scanned w @ [(start, min latest (start + chunk))]\<rparr>)"
      by (simp add: scanBody_def callQuerySlice_def Let_def)
    then have "\<not> scanCond latest (scanBody querySlice chunk latest s)"
      by (simp add: scanCond_def)
    with step.hyps(2) have "t = scanBody querySlice chunk latest s" by (rule iterates_stuck)
    with b step.prems(3) show ?thesis by simp
  next
    case None
    with s q have b: "scanBody querySlice chunk latest s =
        (start + (chunk + 1), None,
         w\<lparr>db := d', scanned := scanned w @ [(start, min latest (start + chunk))],
           progress := Some (min latest (start + chunk))\<rparr>)"
      by (simp add: scanBody_def callQuerySlice_def saveProgress_def Let_def)
    from step.IH [unfolded b] step.prems(2,3) obtain rs where
      rs: "chunks (start + (chunk + 1)) latest chunk = Some rs"
      "scanned (snd (snd t)) = (scanned w @ [(start, min latest (start + chunk))]) @ rs"
      by auto
    from chunks_unfold [OF le, of chunk] rs(1)
    have "chunks start latest chunk = Some ((start, min latest (start + chunk)) # rs)" by simp
    with rs(2) s show ?thesis by simp
  qed
qed

lemma scanLoop_ranges:
  assumes "scanLoop querySlice chunk latest (start, None, w) = Some (start', None, w')"
  shows "\<exists>rs. chunks start latest chunk = Some rs \<and> scanned w' = scanned w @ rs"
proof -
  from assms have "iterates (scanCond latest) (scanBody querySlice chunk latest)
      (start, None, w) (start', None, w')"
    and "\<not> scanCond latest (start', None, w')"
    unfolding scanLoop_def by (auto dest: while_option_iterates while_option_stop)
  from scan_iterates_ranges [OF this(1) _ this(2)] show ?thesis by simp
qed

lemma poll_iterates_ranges:
  assumes "iterates (pollCond safeHead) (pollBody querySlice chunk safeHead) s t"
    and "fst (snd s) = None" and "\<not> pollCond safeHead t" and "fst (snd t) = None"
  shows "\<exists>rs. chunks (fst s) safeHead chunk = Some rs \<and>
           scanned (snd (snd t)) = scanned (snd (snd s)) @ rs"
  using assms
proof (induction rule: iterates.induct)
  case (here s)
  then have "safeHead < fst s" by (cases s) (simp add: pollCond_def)
  then show ?case by (simp add: chunks_empty)
next
  case (step s t)
  obtain cursor thrown w where s: "s = (cursor, thrown, w)" by (cases s)
  with step.hyps(1) step.prems(1) have le: "cursor \<le> safeHead" and thr: "thrown = None"
    by (simp_all add: pollCond_def)
  let ?e = "min (cursor + chunk) safeHead"
  have e: "?e = min safeHead (cursor + chunk)" by simp
  obtain r d' where q: "querySlice cursor ?e (db w) = (r, d')"
    by (cases "querySlice cursor ?e (db w)")
  show ?case
  proof (cases r)
    case (Some e)
    with s q have b: "pollBody querySlice chunk safeHead s =
        (cursor, Some e, w\<lparr>db := d', scanned := scanned w @ [(cursor, ?e)]\<rparr>)"
      by (simp add: pollBody_def callQuerySlice_def Let_def)
    then have "\<not> pollCond safeHead (pollBody querySlice chunk safeHead s)"
      by (simp add: pollCond_def)
    with step.hyps(2) have "t = pollBody querySlice chunk safeHead s" by (rule iterates_stuck)
    with b step.prems(3) show ?thesis by simp
  next
    case None
    with s q have b: "pollBody querySlice chunk safeHead s =
        (?e + 1, None, w\<lparr>db := d', scanned := scanned w @ [(cursor, ?e)]\<rparr>)"
      by (simp add: pollBody_def callQuerySlice_def Let_def)
    show ?thesis
    proof (cases "cursor + chunk \<le> safeHead")
      case True
      then have n: "?e + 1 = cursor + (chunk + 1)" by simp
      from step.IH [unfolded b n] step.prems(2,3) obtain rs where
        rs: "chunks (cursor + (chunk + 1)) safeHead chunk = Some rs"
        "scanned (snd (snd t)) = (scanned w @ [(cursor, ?e)]) @ rs"
        by auto
      from chunks_unfold [OF le, of chunk] rs(1)
      have "chunks cursor safeHead chunk = Some ((cursor, ?e) # rs)" by (simp add: e)
      with rs(2) s show ?thesis by simp
    next
      case False
      then have n: "?e = safeHead" by simp
      with b have "\<not> pollCond safeHead (pollBody querySlice chunk safeHead s)"
        by (simp add: pollCond_def)
      with step.hyps(2) have t: "t = pollBody querySlice chunk safeHead s" by (rule iterates_stuck)
      from False have "safeHead < cursor + (chunk + 1)" by simp
      then have "chunks (cursor + (chunk + 1)) safeHead chunk = Some []" by (rule chunks_empty)
      with chunks_unfold [OF le, of chunk]
      have "chunks cursor safeHead chunk = Some [(cursor, ?e)]" by (simp add: e)
      with t b s show ?thesis by simp
    qed
  qed
qed

lemma pollLoop_ranges:
  assumes "pollLoop querySlice chunk safeHead (cursor, None, w) = Some (cursor', None, w')"
  shows "\<exists>rs. chunks cursor safeHead chunk = Some rs \<and> scanned w' = scanned w @ rs"
proof -
  from assms have "iterates (pollCond safeHead) (pollBody querySlice chunk safeHead)
      (cursor, None, w) (cursor', None, w')"
    and "\<not> pollCond safeHead (cursor', None, w')"
    unfolding pollLoop_def by (auto dest: while_option_iterates while_option_stop)
  from poll_iterates_ranges [OF this(1) _ this(2)] show ?thesis by simp
qed

lemma scanHistorical_ranges:
  assumes "scanHistorical cfg (Inr latest) querySlice w = Some (Inr head, w')"
  shows "\<exists>rs. chunks (fromBlock cfg (loadProgress w) latest) latest (CHUNK cfg) = Some rs \<and>
           scanned w' = scanned w @ rs"
proof -
  from assms obtain start' where
    "scanLoop querySlice (CHUNK cfg) latest (fromBlock cfg (loadProgress w) latest, None, w)
       = Some (start', None, w')"
    by (auto simp: scanHistorical_def split: option.splits)
  then show ?thesis by (rule scanLoop_ranges)
qed

lemma tick_ranges:
  assumes "tick cfg (Inr head) querySlice (lastProcessed, w) = Some (None, lastProcessed', w')"
    and "lastProcessed < head - CONFIRMATIONS cfg"
  shows "\<exists>rs. chunks (lastProcessed + 1) (head - CONFIRMATIONS cfg) (CHUNK cfg) = Some rs \<and>
           scanned w' = scanned w @ rs"
  using assms(1)
proof (cases rule: tick_cases)
  case (advanced head' cursor w1)
  then have "pollLoop querySlice (CHUNK cfg) (head - CONFIRMATIONS cfg) (lastProcessed + 1, None, w)
      = Some (cursor, None, w1)"
    by simp
  from pollLoop_ranges [OF this] advanced(6) show ?thesis
    by (simp add: saveProgress_def)
next
  case (nothing_new head')
  with assms(2) show ?thesis by simp
qed simp_all

section \<open>Filter and store\<close>

subsection \<open>The loop over the entries of a batch\<close>

lemma zip_snoc:
  "zip (xs @ [x]) vals = zip xs vals @ (if length xs < length vals then [(x, vals ! length xs)] else [])"
proof (induction xs arbitrary: vals)
  case Nil
  then show ?case by (cases vals) simp_all
next
  case (Cons a xs)
  then show ?case by (cases vals) simp_all
qed

lemma filterBatch_prefix:
  assumes "n \<le> length ids"
  shows "foldl (\<lambda>acc i.
              case acc of
                Inl e \<Rightarrow> Inl e
              | Inr (filteredIds, filteredValues) \<Rightarrow>
                  if length vals \<le> i then Inl (Error ''out of result range'')
                  else let id = ids ! i;
                           val = vals ! i
                       in if id = 0 \<or> val = 0 then Inr (filteredIds, filteredValues)
                          else if toString id \<notin> set WATCH_TOKEN_IDS
                          then Inr (filteredIds, filteredValues)
                          else Inr (filteredIds @ [id], filteredValues @ [val]))
           (Inr ([], [])) [0..<n]
         = (if n \<le> length vals
            then Inr (map fst (filter watched (zip (take n ids) vals)),
                      map snd (filter watched (zip (take n ids) vals)))
            else Inl (Error ''out of result range''))"
  using assms
proof (induction n)
  case 0
  then show ?case by simp
next
  case (Suc n)
  then have n: "n < length ids" by simp
  have t: "take (Suc n) ids = take n ids @ [ids ! n]"
    using n by (simp add: take_Suc_conv_app_nth)
  have l: "length (take n ids) = n" using n by simp
  show ?case
  proof (cases "Suc n \<le> length vals")
    case True
    with Suc.IH n show ?thesis
      by (simp add: t zip_snoc l watched_def Let_def)
  next
    case False
    with Suc.IH n show ?thesis
      by (cases "n \<le> length vals") simp_all
  qed
qed

lemma filterBatch_eq:
  assumes "length ids \<le> length vals"
  shows "filterBatch ids vals =
           Inr (map fst (filter watched (zip ids vals)), map snd (filter watched (zip ids vals)))"
  unfolding filterBatch_def using filterBatch_prefix [of "length ids" ids vals] assms by simp

lemma filterBatch_throws:
  assumes "length vals < length ids"
  shows "filterBatch ids vals = Inl (Error ''out of result range'')"
  unfolding filterBatch_def using filterBatch_prefix [of "length ids" ids vals] assms by simp

lemma filterBatch_Inr:
  assumes "filterBatch ids vals = Inr (filteredIds, filteredValues)"
  shows "length ids \<le> length vals"
    and "filteredIds = map fst (filter watched (zip ids vals))"
    and "filteredValues = map snd (filter watched (zip ids vals))"
proof -
  show le: "length ids \<le> length vals"
  proof (rule ccontr)
    assume "\<not> length ids \<le> length vals"
    then have "filterBatch ids vals = Inl (Error ''out of result range'')"
      by (simp add: filterBatch_throws)
    with assms show False by simp
  qed
  from filterBatch_eq [OF le] assms
  show "filteredIds = map fst (filter watched (zip ids vals))"
    and "filteredValues = map snd (filter watched (zip ids vals))"
    by simp_all
qed

subsection \<open>Sorting keeps the records\<close>

lemma distinct_map_insort_key:
  "distinct (map f (insort_key g x xs)) \<longleftrightarrow> f x \<notin> f ` set xs \<and> distinct (map f xs)"
  by (induction xs) (auto simp: set_insort_key)

lemma distinct_map_sort_key: "distinct (map f (sort_key g xs)) \<longleftrightarrow> distinct (map f xs)"
  by (induction xs) (simp_all add: distinct_map_insort_key)

lemma set_sortDb: "set (sortDb d) = set d"
  by (simp add: sortDb_def)

lemma distinct_map_sortDb: "distinct (map f (sortDb d)) \<longleftrightarrow> distinct (map f d)"
  by (simp add: sortDb_def distinct_map_sort_key)

lemma find_None_image: "find (\<lambda>x. f x = k) d = None \<longleftrightarrow> k \<notin> f ` set d"
  by (auto simp: find_None_iff)

subsection \<open>Appending to the ERC-1155 store\<close>

lemma enrich_items_cases:
  obtains (threw) e where "getBlock ch (log_blockNumber logObj) = Inl e"
      "enrichAndPersist_items cfg ch fa ta ids amts logObj d = (Some e, d)"
  | (known) isoDate where "getBlock ch (log_blockNumber logObj) = Inr isoDate"
      "toLowerCase (transactionHash logObj) \<in> keys_items d"
      "enrichAndPersist_items cfg ch fa ta ids amts logObj d = (None, d)"
  | (new) isoDate where "getBlock ch (log_blockNumber logObj) = Inr isoDate"
      "toLowerCase (transactionHash logObj) \<notin> keys_items d"
      "enrichAndPersist_items cfg ch fa ta ids amts logObj d =
         (None, sortDb (d @ [\<lparr>receivedTo = ta, sender = fa,
                   blockNumber = log_blockNumber logObj, txHash = transactionHash logObj,
                   dateISO = isoDate,
                   tokenIds = map toString ids, amounts = map toString amts,
                   itemTypes = map itemType ids,
                   totalAmount = toString (foldl (\<lambda>sum amt. sum + amt) 0 amts),
                   contract = CONTRACT_ADDRESS cfg\<rparr>]))"
proof (cases "getBlock ch (log_blockNumber logObj)")
  case (Inl e)
  then show ?thesis by (intro threw [of e]) (simp_all add: enrichAndPersist_items_def)
next
  case (Inr isoDate)
  show ?thesis
  proof (cases "toLowerCase (transactionHash logObj) \<in> keys_items d")
    case True
    with Inr show ?thesis
      by (intro known [of isoDate])
         (simp_all add: enrichAndPersist_items_def Let_def find_None_image keys_items_def)
  next
    case False
    with Inr show ?thesis
      by (intro new [of isoDate])
         (simp_all add: enrichAndPersist_items_def Let_def find_None_image keys_items_def)
  qed
qed

lemma enrich_items_new:
  assumes "getBlock ch (log_blockNumber logObj) = Inr isoDate"
    and "toLowerCase (transactionHash logObj) \<notin> keys_items d"
  shows "enrichAndPersist_items cfg ch fa ta ids amts logObj d =
         (None, sortDb (d @ [\<lparr>receivedTo = ta, sender = fa,
                   blockNumber = log_blockNumber logObj, txHash = transactionHash logObj,
                   dateISO = isoDate,
                   tokenIds = map toString ids, amounts = map toString amts,
                   itemTypes = map itemType ids,
                   totalAmount = toString (foldl (\<lambda>sum amt. sum + amt) 0 amts),
                   contract = CONTRACT_ADDRESS cfg\<rparr>]))"
  using assms
  by (simp add: enrichAndPersist_items_def Let_def find_None_image keys_items_def)

lemma keys_items_new: "keys_items (sortDb (d @ [r])) = insert (toLowerCase (txHash r)) (keys_items d)"
  by (auto simp: keys_items_def set_sortDb)

lemma enrich_items_distinct:
  assumes "distinct (map (\<lambda>r. toLowerCase (txHash r)) d)"
  shows "distinct (map (\<lambda>r. toLowerCase (txHash r))
           (snd (enrichAndPersist_items cfg ch fa ta ids amts logObj d)))"
proof (cases rule: enrich_items_cases [of ch logObj cfg fa ta ids amts d])
  case (new isoDate)
  then show ?thesis using assms
    by (simp add: distinct_map_sortDb keys_items_def)
qed (simp_all add: assms)

lemma enrich_items_known:
  assumes "toLowerCase (transactionHash logObj) \<in> keys_items d"
  shows "snd (enrichAndPersist_items cfg ch fa ta ids amts logObj d) = d"
  by (cases rule: enrich_items_cases [of ch logObj cfg fa ta ids amts d]) (simp_all add: assms)

lemma enrich_items_grows:
  "keys_items d \<subseteq> keys_items (snd (enrichAndPersist_items cfg ch fa ta ids amts logObj d))"
  by (cases rule: enrich_items_cases [of ch logObj cfg fa ta ids amts d])
     (auto simp: keys_items_new)

lemma enrich_items_records:
  assumes "enrichAndPersist_items cfg ch fa ta ids amts logObj d = (None, d')"
  shows "toLowerCase (transactionHash logObj) \<in> keys_items d'"
  using assms
  by (cases rule: enrich_items_cases [of ch logObj cfg fa ta ids amts d])
     (auto simp: keys_items_new)

subsection \<open>Appending to the ERC-721 store\<close>

lemma enrich_egg_cases:
  obtains (threw) e where "getBlock ch (log_blockNumber logObj) = Inl e"
      "enrichAndPersist_egg ch fa ta tok logObj d = (Some e, d)"
  | (known) isoDate where "getBlock ch (log_blockNumber logObj) = Inr isoDate"
      "key_egg (transactionHash logObj) tok \<in> keys_egg d"
      "enrichAndPersist_egg ch fa ta tok logObj d = (None, d)"
  | (new) isoDate where "getBlock ch (log_blockNumber logObj) = Inr isoDate"
      "key_egg (transactionHash logObj) tok \<notin> keys_egg d"
      "enrichAndPersist_egg ch fa ta tok logObj d =
         (None, sortDb (d @ [\<lparr>receivedTo = ta, sender = fa,
                   blockNumber = log_blockNumber logObj, txHash = transactionHash logObj,
                   dateISO = isoDate, tokenId = toString tok,
                   eggType = fetchEggType ch tok\<rparr>]))"
proof (cases "getBlock ch (log_blockNumber logObj)")
  case (Inl e)
  then show ?thesis by (intro threw [of e]) (simp_all add: enrichAndPersist_egg_def)
next
  case (Inr isoDate)
  show ?thesis
  proof (cases "key_egg (transactionHash logObj) tok \<in> keys_egg d")
    case True
    with Inr show ?thesis
      by (intro known [of isoDate])
         (simp_all add: enrichAndPersist_egg_def Let_def find_None_image keys_egg_def makeKey_def key_egg_def)
  next
    case False
    with Inr show ?thesis
      by (intro new [of isoDate])
         (simp_all add: enrichAndPersist_egg_def Let_def find_None_image keys_egg_def makeKey_def key_egg_def)
  qed
qed

lemma keys_egg_new: "keys_egg (sortDb (d @ [r])) = insert (makeKey r) (keys_egg d)"
  by (auto simp: keys_egg_def set_sortDb)

lemma enrich_egg_distinct:
  assumes "distinct (map makeKey d)"
  shows "distinct (map makeKey (snd (enrichAndPersist_egg ch fa ta tok logObj d)))"
proof (cases rule: enrich_egg_cases [of ch logObj fa ta tok d])
  case (new isoDate)
  then show ?thesis using assms
    by (simp add: distinct_map_sortDb keys_egg_def makeKey_def key_egg_def)
qed (simp_all add: assms)

lemma enrich_egg_known:
  assumes "key_egg (transactionHash logObj) tok \<in> keys_egg d"
  shows "snd (enrichAndPersist_egg ch fa ta tok logObj d) = d"
  by (cases rule: enrich_egg_cases [of ch logObj fa ta tok d]) (simp_all add: assms)

lemma enrich_egg_grows:
  "keys_egg d \<subseteq> keys_egg (snd (enrichAndPersist_egg ch fa ta tok logObj d))"
  by (cases rule: enrich_egg_cases [of ch logObj fa ta tok d])
     (auto simp: keys_egg_new)

lemma enrich_egg_records:
  assumes "enrichAndPersist_egg ch fa ta tok logObj d = (None, d')"
  shows "key_egg (transactionHash logObj) tok \<in> keys_egg d'"
  using assms
  by (cases rule: enrich_egg_cases [of ch logObj fa ta tok d])
     (auto simp: keys_egg_new makeKey_def key_egg_def)

subsection \<open>Handlers\<close>

lemma handleTransferSingle_skip:
  "skips_single cfg ev \<Longrightarrow> handleTransferSingle cfg ch ev d = (None, d)"
  by (auto simp: handleTransferSingle_def skips_single_def Let_def)

lemma handleTransferSingle_pass:
  "\<not> skips_single cfg ev \<Longrightarrow>
   handleTransferSingle cfg ch ev d =
     enrichAndPersist_items cfg ch (toLowerCase (args_from ev)) (toLowerCase (args_to ev))
       [args_id ev] [args_value ev] (log ev) d"
  by (simp add: handleTransferSingle_def skips_single_def Let_def)

lemma handleTransferBatch_skip:
  "skips_batch cfg ev \<Longrightarrow> handleTransferBatch cfg ch ev d = (None, d)"
  by (auto simp: handleTransferBatch_def skips_batch_def Let_def filterBatch_eq)

lemma handleTransferBatch_throw:
  "throws_batch cfg ev \<Longrightarrow>
   handleTransferBatch cfg ch ev d = (Some (Error ''out of result range''), d)"
  by (simp add: handleTransferBatch_def throws_batch_def Let_def filterBatch_throws)

lemma handleTransferBatch_pass:
  assumes "\<not> skips_batch cfg ev" and "\<not> throws_batch cfg ev"
  shows "handleTransferBatch cfg ch ev d =
     enrichAndPersist_items cfg ch (toLowerCase (args_from ev)) (toLowerCase (args_to ev))
       (map fst (filter watched (zip (args_ids ev) (args_values ev))))
       (map snd (filter watched (zip (args_ids ev) (args_values ev)))) (log ev) d"
proof -
  from assms have to: "toLowerCase (args_to ev) = WATCH_WALLET cfg"
    and le: "length (args_ids ev) \<le> length (args_values ev)"
    and ne: "filter watched (zip (args_ids ev) (args_values ev)) \<noteq> []"
    by (auto simp: skips_batch_def throws_batch_def)
  then show ?thesis
    by (simp add: handleTransferBatch_def Let_def filterBatch_eq [OF le])
qed


text \<open>
  Every batch event is skipped, makes the handler throw, or is handed to
  \<^verbatim>\<open>enrichAndPersist\<close>; only the last can change the store.
\<close>

lemma handleTransferBatch_unchanged:
  "skips_batch cfg ev \<or> throws_batch cfg ev \<Longrightarrow> snd (handleTransferBatch cfg ch ev d) = d"
  by (auto simp: handleTransferBatch_skip handleTransferBatch_throw)

lemma single_settles:
  assumes "handleTransferSingle cfg ch ev d = (None, d')"
  shows "settled_items cfg (skips_single cfg ev) ev d'"
proof (cases "skips_single cfg ev")
  case True
  then show ?thesis by (simp add: settled_items_def)
next
  case False
  with assms show ?thesis
    by (simp add: handleTransferSingle_pass settled_items_def enrich_items_records)
qed

lemma single_grows: "keys_items d \<subseteq> keys_items (snd (handleTransferSingle cfg ch ev d))"
  by (cases "skips_single cfg ev")
     (simp_all add: handleTransferSingle_skip handleTransferSingle_pass enrich_items_grows)

lemma single_noop:
  assumes "settled_items cfg (skips_single cfg ev) ev d"
  shows "snd (handleTransferSingle cfg ch ev d) = d"
  using assms
  by (cases "skips_single cfg ev")
     (simp_all add: handleTransferSingle_skip handleTransferSingle_pass settled_items_def
        enrich_items_known)

lemma batch_settles:
  assumes "handleTransferBatch cfg ch ev d = (None, d')"
  shows "settled_items cfg (skips_batch cfg ev) ev d'"
proof (cases "skips_batch cfg ev")
  case True
  then show ?thesis by (simp add: settled_items_def)
next
  case False
  from assms have "\<not> throws_batch cfg ev"
    by (auto simp: handleTransferBatch_throw)
  with False assms show ?thesis
    by (simp add: handleTransferBatch_pass settled_items_def enrich_items_records)
qed

lemma batch_grows: "keys_items d \<subseteq> keys_items (snd (handleTransferBatch cfg ch ev d))"
proof (cases "skips_batch cfg ev \<or> throws_batch cfg ev")
  case True
  then show ?thesis by (simp add: handleTransferBatch_unchanged)
next
  case False
  then show ?thesis by (simp add: handleTransferBatch_pass enrich_items_grows)
qed

lemma batch_noop:
  assumes "settled_items cfg (skips_batch cfg ev) ev d"
  shows "snd (handleTransferBatch cfg ch ev d) = d"
proof (cases "skips_batch cfg ev \<or> throws_batch cfg ev")
  case True
  then show ?thesis by (simp add: handleTransferBatch_unchanged)
next
  case False
  with assms show ?thesis
    by (simp add: handleTransferBatch_pass settled_items_def enrich_items_known)
qed

lemma settled_items_mono:
  "settled_items cfg b ev d \<Longrightarrow> keys_items d \<subseteq> keys_items d' \<Longrightarrow> settled_items cfg b ev d'"
  by (auto simp: settled_items_def)

lemma single_distinct:
  "distinct (map (\<lambda>r. toLowerCase (txHash r)) d) \<Longrightarrow>
   distinct (map (\<lambda>r. toLowerCase (txHash r)) (snd (handleTransferSingle cfg ch ev d)))"
  by (cases "skips_single cfg ev")
     (simp_all add: handleTransferSingle_skip handleTransferSingle_pass enrich_items_distinct)

lemma batch_distinct:
  assumes "distinct (map (\<lambda>r. toLowerCase (txHash r)) d)"
  shows "distinct (map (\<lambda>r. toLowerCase (txHash r)) (snd (handleTransferBatch cfg ch ev d)))"
proof (cases "skips_batch cfg ev \<or> throws_batch cfg ev")
  case True
  with assms show ?thesis by (simp add: handleTransferBatch_unchanged)
next
  case False
  with assms show ?thesis by (simp add: handleTransferBatch_pass enrich_items_distinct)
qed

lemma egg_settles:
  "handleTransfer_egg ch ev d = (None, d') \<Longrightarrow> settled_egg ev d'"
  by (simp add: handleTransfer_egg_def settled_egg_def enrich_egg_records)

lemma egg_grows: "keys_egg d \<subseteq> keys_egg (snd (handleTransfer_egg ch ev d))"
  by (simp add: handleTransfer_egg_def enrich_egg_grows)

lemma egg_noop: "settled_egg ev d \<Longrightarrow> snd (handleTransfer_egg ch ev d) = d"
  by (simp add: handleTransfer_egg_def settled_egg_def enrich_egg_known)

lemma settled_egg_mono: "settled_egg ev d \<Longrightarrow> keys_egg d \<subseteq> keys_egg d' \<Longrightarrow> settled_egg ev d'"
  by (auto simp: settled_egg_def)

subsection \<open>Reachable stores hold each key once\<close>

lemma reachable_items_distinct:
  "reachable_items cfg d \<Longrightarrow> distinct (map (\<lambda>r. toLowerCase (txHash r)) d)"
  by (induction rule: reachable_items.induct) (simp_all add: single_distinct batch_distinct)

lemma reachable_egg_distinct: "reachable_egg d \<Longrightarrow> distinct (map makeKey d)"
  by (induction rule: reachable_egg.induct)
     (simp_all add: handleTransfer_egg_def enrich_egg_distinct)

subsection \<open>Scanning a range again\<close>

lemma forEach_settles:
  assumes h1: "\<And>ev d d'. h ev d = (None, d') \<Longrightarrow> settled ev d'"
    and mono: "\<And>ev d d'. settled ev d \<Longrightarrow> K d \<subseteq> K d' \<Longrightarrow> settled ev d'"
    and grows: "\<And>ev d. K d \<subseteq> K (snd (h ev d))"
    and run: "forEach h evs d = (None, d')"
  shows "(\<forall>ev \<in> set evs. settled ev d') \<and> K d \<subseteq> K d'"
  using run
proof (induction evs arbitrary: d)
  case Nil
  then show ?case by simp
next
  case (Cons ev evs)
  obtain r d1 where s: "h ev d = (r, d1)" by (cases "h ev d")
  with Cons.prems have r: "r = None" and rest: "forEach h evs d1 = (None, d')"
    by (auto split: option.splits)
  from Cons.IH [OF rest] have all: "\<forall>ev \<in> set evs. settled ev d'" and sub: "K d1 \<subseteq> K d'"
    by simp_all
  from s r have "settled ev d1" by (simp add: h1)
  then have "settled ev d'" using sub by (rule mono)
  moreover from grows [of d ev] s have "K d \<subseteq> K d1" by simp
  ultimately show ?case using all sub by auto
qed

lemma forEach_noop:
  assumes "\<And>ev d. settled ev d \<Longrightarrow> snd (h ev d) = d"
    and "\<forall>ev \<in> set evs. settled ev d"
  shows "snd (forEach h evs d) = d"
  using assms(2)
proof (induction evs)
  case Nil
  then show ?case by simp
next
  case (Cons ev evs)
  then have "snd (h ev d) = d" by (simp add: assms(1))
  then obtain r where "h ev d = (r, d)" by (cases "h ev d") simp
  with Cons show ?case by (cases r) simp_all
qed

lemma rescan_items:
  assumes first: "querySlice_items cfg ch start end d0 = (None, d1)"
    and later: "keys_items d1 \<subseteq> keys_items d2"
    and same1: "queryFilter_TransferSingle ch' start end = queryFilter_TransferSingle ch start end"
    and same2: "queryFilter_TransferBatch ch' start end = queryFilter_TransferBatch ch start end"
  shows "snd (querySlice_items cfg ch' start end d2) = d2"
proof -
  from first obtain singleLogs batchLogs dm where
    q1: "queryFilter_TransferSingle ch start end = Inr singleLogs"
    and q2: "queryFilter_TransferBatch ch start end = Inr batchLogs"
    and f1: "forEach (handleTransferSingle cfg ch) singleLogs d0 = (None, dm)"
    and f2: "forEach (handleTransferBatch cfg ch) batchLogs dm = (None, d1)"
    by (auto simp: querySlice_items_def split: sum.splits prod.splits option.splits)
  have s1: "(\<forall>ev \<in> set singleLogs. settled_items cfg (skips_single cfg ev) ev dm) \<and>
            keys_items d0 \<subseteq> keys_items dm"
    by (rule forEach_settles [where h = "handleTransferSingle cfg ch", OF _ _ _ f1])
       (auto intro: single_settles settled_items_mono single_grows [THEN subsetD])
  have s2: "(\<forall>ev \<in> set batchLogs. settled_items cfg (skips_batch cfg ev) ev d1) \<and>
            keys_items dm \<subseteq> keys_items d1"
    by (rule forEach_settles [where h = "handleTransferBatch cfg ch", OF _ _ _ f2])
       (auto intro: batch_settles settled_items_mono batch_grows [THEN subsetD])
  have a1: "\<forall>ev \<in> set singleLogs. settled_items cfg (skips_single cfg ev) ev d2"
    using s1 s2 later by (blast intro: settled_items_mono)
  have a2: "\<forall>ev \<in> set batchLogs. settled_items cfg (skips_batch cfg ev) ev d2"
    using s2 later by (blast intro: settled_items_mono)
  have n1: "snd (forEach (handleTransferSingle cfg ch') singleLogs d2) = d2"
    by (rule forEach_noop
          [where settled = "\<lambda>ev d. settled_items cfg (skips_single cfg ev) ev d", OF _ a1])
       (rule single_noop)
  have n2: "snd (forEach (handleTransferBatch cfg ch') batchLogs d2) = d2"
    by (rule forEach_noop
          [where settled = "\<lambda>ev d. settled_items cfg (skips_batch cfg ev) ev d", OF _ a2])
       (rule batch_noop)
  obtain r where r: "forEach (handleTransferSingle cfg ch') singleLogs d2 = (r, d2)"
    using n1 by (cases "forEach (handleTransferSingle cfg ch') singleLogs d2") simp
  show ?thesis
    using q1 q2 same1 same2 r n2
    by (cases r) (simp_all add: querySlice_items_def)
qed

lemma rescan_egg:
  assumes first: "querySlice_egg ch start end d0 = (None, d1)"
    and later: "keys_egg d1 \<subseteq> keys_egg d2"
    and same: "queryFilter_Transfer ch' start end = queryFilter_Transfer ch start end"
  shows "snd (querySlice_egg ch' start end d2) = d2"
proof -
  from first obtain logs where q: "queryFilter_Transfer ch start end = Inr logs"
    and f: "forEach (handleTransfer_egg ch) logs d0 = (None, d1)"
    by (auto simp: querySlice_egg_def split: sum.splits)
  have "(\<forall>ev \<in> set logs. settled_egg ev d1) \<and> keys_egg d0 \<subseteq> keys_egg d1"
    by (rule forEach_settles [where h = "handleTransfer_egg ch", OF _ _ _ f])
       (auto intro: egg_settles settled_egg_mono egg_grows [THEN subsetD])
  with later have a: "\<forall>ev \<in> set logs. settled_egg ev d2"
    by (blast intro: settled_egg_mono)
  have "snd (forEach (handleTransfer_egg ch') logs d2) = d2"
    by (rule forEach_noop [where settled = settled_egg, OF _ a]) (rule egg_noop)
  with q same show ?thesis by (simp add: querySlice_egg_def)
qed

section \<open>The concrete inputs, evaluated\<close>

lemma lowerChar_hex:
  "lowerChar CHR ''0'' = CHR ''0''" "lowerChar CHR ''1'' = CHR ''1''"
  "lowerChar CHR ''2'' = CHR ''2''" "lowerChar CHR ''3'' = CHR ''3''"
  "lowerChar CHR ''4'' = CHR ''4''" "lowerChar CHR ''5'' = CHR ''5''"
  "lowerChar CHR ''6'' = CHR ''6''" "lowerChar CHR ''7'' = CHR ''7''"
  "lowerChar CHR ''8'' = CHR ''8''" "lowerChar CHR ''9'' = CHR ''9''"
  "lowerChar CHR ''a'' = CHR ''a''" "lowerChar CHR ''b'' = CHR ''b''"
  "lowerChar CHR ''c'' = CHR ''c''" "lowerChar CHR ''d'' = CHR ''d''"
  "lowerChar CHR ''e'' = CHR ''e''" "lowerChar CHR ''f'' = CHR ''f''"
  "lowerChar CHR ''x'' = CHR ''x''"
  "lowerChar CHR ''A'' = CHR ''a''" "lowerChar CHR ''B'' = CHR ''b''"
  "lowerChar CHR ''C'' = CHR ''c''" "lowerChar CHR ''D'' = CHR ''d''"
  "lowerChar CHR ''E'' = CHR ''e''" "lowerChar CHR ''F'' = CHR ''f''"
  by (simp_all add: lowerChar_def)

lemmas ex_eval = ex_defs toLowerCase_def lowerChar_hex WATCH_WALLET_def sortDb_def toString.simps
  Let_def

lemmas items_eval = ex_eval handleTransferSingle_def handleTransferBatch_def filterBatch_def
  enrichAndPersist_items_def WATCH_TOKEN_IDS_def ITEM_TYPES_def itemType_def querySlice_items_def

lemmas egg_eval = ex_eval handleTransfer_egg_def enrichAndPersist_egg_def makeKey_def
  querySlice_egg_def

lemma ex_items_reachable:
  "reachable_items ex_cfg (snd (handleTransferBatch ex_cfg ex_chain ex_batch
          (snd (handleTransferSingle ex_cfg ex_chain ex_single []))))"
  by (intro reachable_items.intros)

lemma ex_egg_reachable:
  "reachable_egg (snd (handleTransfer_egg ex_chain (ex_transfer 2)
          (snd (handleTransfer_egg ex_chain (ex_transfer 1) []))))"
  by (intro reachable_egg.intros)

lemma ex_egg_store:
  "snd (handleTransfer_egg ex_chain (ex_transfer 2)
          (snd (handleTransfer_egg ex_chain (ex_transfer 1) []))) =
     [\<lparr>receivedTo = ''0x00000000000000000000000000000000000000aa'',
       sender = ''0x00000000000000000000000000000000000000b1'',
       blockNumber = 150,
       txHash = ''0xAB00000000000000000000000000000000000000000000000000000000000001'',
       dateISO = ''2025-01-01T00:00:00.000Z'', tokenId = ''1'', eggType = ''Unknown''\<rparr>,
      \<lparr>receivedTo = ''0x00000000000000000000000000000000000000aa'',
       sender = ''0x00000000000000000000000000000000000000b1'',
       blockNumber = 150,
       txHash = ''0xAB00000000000000000000000000000000000000000000000000000000000001'',
       dateISO = ''2025-01-01T00:00:00.000Z'', tokenId = ''2'', eggType = ''Unknown''\<rparr>]"
  by (simp add: ex_eval handleTransfer_egg_def enrichAndPersist_egg_def makeKey_def)

lemma ex_items_slice: "querySlice_items ex_cfg ex_chain 101 201 [] = (None, [ex_item_row])"
  by (simp add: items_eval ex_item_row_def)

lemma ex_egg_slice:
  "querySlice_egg ex_chain 101 201 [] = (None, [ex_egg_row ''1'', ex_egg_row ''2''])"
  by (simp add: egg_eval ex_egg_row_def)

lemma ex_items_key: "toLowerCase (transactionHash ex_log) \<in> keys_items [ex_item_row]"
  by (simp add: ex_eval ex_item_row_def keys_items_def)

lemma ex_egg_key: "key_egg (transactionHash ex_log) 2 \<in> keys_egg [ex_egg_row ''1'', ex_egg_row ''2'']"
  by (simp add: ex_eval makeKey_def ex_egg_row_def keys_egg_def key_egg_def)


lemma ex_filterBatch: "filterBatch [5, 0, 73, 74] [3, 9, 0, 2] = Inr ([5, 74], [3, 2])"
  by (simp add: filterBatch_def WATCH_TOKEN_IDS_def ITEM_TYPES_def toString.simps)

lemma ex_filterBatch_short: "filterBatch [5, 0] [3] = Inl (Error ''out of result range'')"
  by (simp add: filterBatch_def WATCH_TOKEN_IDS_def ITEM_TYPES_def toString.simps)

lemma ex_scan:
  "scanHistorical ex_cfg (Inr 250) (\<lambda>_ _ d. (None, d)) (ex_world (Some 120)) =
     Some (Inr 250, \<lparr>db = (), progress = Some 250, scanned = [(118, 218), (219, 250)]\<rparr>)"
  by (simp add: scanHistorical_def scanLoop_def scanCond_def scanBody_def callQuerySlice_def
      saveProgress_def while_option_unfold fromBlock_def loadProgress_def ex_cfg_def ex_world_def)

lemma ex_failing_run:
  "iterates (pollCond (250 - CONFIRMATIONS ex_cfg))
     (pollBody ex_failing (CHUNK ex_cfg) (250 - CONFIRMATIONS ex_cfg))
     (0 + 1, None, ex_world (Some 0))
     (102, Some (Error ''timeout''),
      \<lparr>db = (), progress = Some 0, scanned = [(1, 101), (102, 202)]\<rparr>)"
proof -
  let ?b = "pollBody ex_failing (CHUNK ex_cfg) (250 - CONFIRMATIONS ex_cfg)"
  let ?c = "pollCond (250 - CONFIRMATIONS ex_cfg)"
  have 1: "?b (0 + 1, None, ex_world (Some 0))
             = (102, None, \<lparr>db = (), progress = Some 0, scanned = [(1, 101)]\<rparr>)"
    by (simp add: pollBody_def callQuerySlice_def ex_failing_def ex_cfg_def ex_world_def)
  have 2: "?b (102, None, \<lparr>db = (), progress = Some 0, scanned = [(1, 101)]\<rparr>)
             = (102, Some (Error ''timeout''),
                \<lparr>db = (), progress = Some 0, scanned = [(1, 101), (102, 202)]\<rparr>)"
    by (simp add: pollBody_def callQuerySlice_def ex_failing_def ex_cfg_def)
  have c1: "?c (0 + 1, None, ex_world (Some 0))"
    by (simp add: pollCond_def ex_cfg_def)
  have c2: "?c (102, None, \<lparr>db = (), progress = Some 0, scanned = [(1, 101)]\<rparr>)"
    by (simp add: pollCond_def ex_cfg_def)
  show ?thesis
    by (rule iterates.step [where b = ?c and c = ?b, OF c1], subst 1,
        rule iterates.step [where b = ?c and c = ?b, OF c2], subst 2, rule iterates.here)
qed

lemma ex_slice_202: "querySlice_items ex_cfg ex_chain 202 248 [ex_item_row] = (None, [ex_item_row])"
  by (simp add: querySlice_items_def ex_chain_def)

lemma ex_tick_step1:
  "pollBody (querySlice_items ex_cfg ex_chain) (CHUNK ex_cfg) (250 - CONFIRMATIONS ex_cfg)
     (100 + 1, None, ex_files)
     = (202, None, \<lparr>db = [ex_item_row], progress = Some 100, scanned = [(101, 201)]\<rparr>)"
  by (simp add: pollBody_def callQuerySlice_def ex_files_def ex_cfg_def
      ex_items_slice [unfolded ex_cfg_def])

lemma ex_tick_step2:
  "pollBody (querySlice_items ex_cfg ex_chain) (CHUNK ex_cfg) (250 - CONFIRMATIONS ex_cfg)
     (202, None, \<lparr>db = [ex_item_row], progress = Some 100, scanned = [(101, 201)]\<rparr>)
     = (249, None, \<lparr>db = [ex_item_row], progress = Some 100, scanned = [(101, 201), (202, 248)]\<rparr>)"
  by (simp add: pollBody_def callQuerySlice_def ex_cfg_def ex_slice_202 [unfolded ex_cfg_def])

lemma ex_tick_start:
  "iterates (pollCond (250 - CONFIRMATIONS ex_cfg))
     (pollBody (querySlice_items ex_cfg ex_chain) (CHUNK ex_cfg) (250 - CONFIRMATIONS ex_cfg))
     (100 + 1, None, ex_files)
     (202, None, \<lparr>db = [ex_item_row], progress = Some 100, scanned = [(101, 201)]\<rparr>)"
proof -
  let ?b = "pollBody (querySlice_items ex_cfg ex_chain) (CHUNK ex_cfg) (250 - CONFIRMATIONS ex_cfg)"
  let ?c = "pollCond (250 - CONFIRMATIONS ex_cfg)"
  have c1: "?c (100 + 1, None, ex_files)"
    by (simp add: pollCond_def ex_cfg_def)
  show ?thesis
    by (rule iterates.step [where b = ?c and c = ?b, OF c1], subst ex_tick_step1,
        rule iterates.here)
qed

lemma ex_tick:
  "tick_items ex_cfg ex_chain (100, ex_files) =
     Some (None, 248,
           \<lparr>db = [ex_item_row], progress = Some 248, scanned = [(101, 201), (202, 248)]\<rparr>)"
proof -
  let ?b = "pollBody (querySlice_items ex_cfg ex_chain) (CHUNK ex_cfg) (250 - CONFIRMATIONS ex_cfg)"
  let ?c = "pollCond (250 - CONFIRMATIONS ex_cfg)"
  have c1: "?c (100 + 1, None, ex_files)"
    and c2: "?c (202, None, \<lparr>db = [ex_item_row], progress = Some 100, scanned = [(101, 201)]\<rparr>)"
    and c3: "\<not> ?c (249, None,
        \<lparr>db = [ex_item_row], progress = Some 100, scanned = [(101, 201), (202, 248)]\<rparr>)"
    by (simp_all add: pollCond_def ex_cfg_def)
  have "while_option ?c ?b (100 + 1, None, ex_files)
          = Some (249, None,
              \<lparr>db = [ex_item_row], progress = Some 100, scanned = [(101, 201), (202, 248)]\<rparr>)"
    by (subst while_option_unfold, simp only: c1 if_True ex_tick_step1,
        subst while_option_unfold, simp only: c2 if_True ex_tick_step2,
        subst while_option_unfold, simp only: c3 if_False)
  then have "pollLoop (querySlice_items ex_cfg ex_chain) (CHUNK ex_cfg) (250 - CONFIRMATIONS ex_cfg)
      (100 + 1, None, ex_files)
          = Some (249, None,
              \<lparr>db = [ex_item_row], progress = Some 100, scanned = [(101, 201), (202, 248)]\<rparr>)"
    by (simp add: pollLoop_def)
  moreover have "100 < 250 - CONFIRMATIONS ex_cfg" and "250 - CONFIRMATIONS ex_cfg = 248"
    by (simp_all add: ex_cfg_def)
  moreover have "getBlockNumber ex_chain = Inr 250" by (simp add: ex_chain_def)
  ultimately show ?thesis
    by (simp add: tick_items_def tick_run saveProgress_def)
qed

section \<open>The claims\<close>

subsection \<open>C1: uniqueness of stored records\<close>

text \<open>
  Claim C1, as amended. In the ERC-1155 monitor, every store reachable from the empty store
  holds each transaction hash, compared in lower case, in at most one record, however many
  matching events the transaction contains. In the ERC-721 monitor the records are unique by the
  key of \<open>makeKey\<close>, the lower-cased hash followed by the token identifier.
\<close>

theorem store_uniqueness:
  "(reachable_items cfg d \<longrightarrow> distinct (map (\<lambda>r. toLowerCase (txHash r)) d)) \<and>
   (reachable_egg d' \<longrightarrow> distinct (map makeKey d'))"
  using reachable_items_distinct [of cfg d] reachable_egg_distinct [of d'] by blast

theorem store_uniqueness_witness:
  "reachable_items ex_cfg (snd (handleTransferBatch ex_cfg ex_chain ex_batch
          (snd (handleTransferSingle ex_cfg ex_chain ex_single [])))) \<and>
   distinct (map (\<lambda>r. toLowerCase (txHash r))
     (snd (handleTransferBatch ex_cfg ex_chain ex_batch
          (snd (handleTransferSingle ex_cfg ex_chain ex_single []))))) \<and>
   reachable_egg (snd (handleTransfer_egg ex_chain (ex_transfer 2)
          (snd (handleTransfer_egg ex_chain (ex_transfer 1) [])))) \<and>
   distinct (map makeKey (snd (handleTransfer_egg ex_chain (ex_transfer 2)
          (snd (handleTransfer_egg ex_chain (ex_transfer 1) [])))))"
proof -
  note t = store_uniqueness [of ex_cfg
      "snd (handleTransferBatch ex_cfg ex_chain ex_batch
          (snd (handleTransferSingle ex_cfg ex_chain ex_single [])))"
      "snd (handleTransfer_egg ex_chain (ex_transfer 2)
          (snd (handleTransfer_egg ex_chain (ex_transfer 1) [])))"]
  show ?thesis
    by (intro conjI ex_items_reachable ex_egg_reachable
        t [THEN conjunct1, THEN mp, OF ex_items_reachable]
        t [THEN conjunct2, THEN mp, OF ex_egg_reachable])
qed

text \<open>
  As the claim states it, uniqueness by transaction hash fails in the ERC-721 monitor: the two
  transfers of the example transaction leave two records with the same hash.
\<close>

theorem egg_store_repeats_txHash:
  "reachable_egg (snd (handleTransfer_egg ex_chain (ex_transfer 2)
          (snd (handleTransfer_egg ex_chain (ex_transfer 1) [])))) \<and>
   map txHash (snd (handleTransfer_egg ex_chain (ex_transfer 2)
          (snd (handleTransfer_egg ex_chain (ex_transfer 1) [])))) =
     [''0xAB00000000000000000000000000000000000000000000000000000000000001'',
      ''0xAB00000000000000000000000000000000000000000000000000000000000001'']"
proof (intro conjI)
  show "reachable_egg (snd (handleTransfer_egg ex_chain (ex_transfer 2)
          (snd (handleTransfer_egg ex_chain (ex_transfer 1) []))))"
    by (rule ex_egg_reachable)
  show "map txHash (snd (handleTransfer_egg ex_chain (ex_transfer 2)
          (snd (handleTransfer_egg ex_chain (ex_transfer 1) [])))) =
     [''0xAB00000000000000000000000000000000000000000000000000000000000001'',
      ''0xAB00000000000000000000000000000000000000000000000000000000000001'']"
    unfolding ex_egg_store by simp
qed

subsection \<open>C2: the ranges for maxSize 100, start 0, end 250\<close>

text \<open>
  Claim C2, as amended. For maxSize 100, start 0 and end 250 the Range Scheduler yields the
  three ranges [0,100], [101,201], [202,250], in that order: a range spans maxSize + 1 heights.
\<close>

theorem chunks_0_250_100:
  "chunks 0 250 100 = Some [(0, 100), (101, 201), (202, 250)]"
  by (simp add: chunks_def scanLoop_def scanCond_def scanBody_def callQuerySlice_def
      saveProgress_def while_option_unfold)

text \<open>The ranges the claim lists, [0,100], [101,200], [201,250], are not the ones produced.\<close>

theorem chunks_0_250_100_differs:
  "chunks 0 250 100 \<noteq> Some [(0, 100), (101, 200), (201, 250)]"
  by (simp add: chunks_def scanLoop_def scanCond_def scanBody_def callQuerySlice_def
      saveProgress_def while_option_unfold)

subsection \<open>C3: chunk contiguity\<close>

text \<open>
  Claim C3, as amended. For every maxSize that is not negative and every start and end with
  start at most end, the Range Scheduler produces a sequence of ranges that visits every height
  from start to end exactly once, in ascending order, each range non-empty, with end minus start
  at most maxSize, and beginning one above the end of the range before it; and for every start
  above end the sequence is empty, whatever maxSize.
\<close>

theorem chunks_contiguous:
  "(0 \<le> maxSize \<and> start \<le> end \<longrightarrow>
      (\<exists>rs. chunks start end maxSize = Some rs \<and> heights rs = [start..end] \<and>
            (\<forall>(s, e) \<in> set rs. s \<le> e \<and> e - s \<le> maxSize) \<and> adjacent rs)) \<and>
   (end < start \<longrightarrow> chunks start end maxSize = Some [])"
  using chunks_cover [of maxSize start "end"] chunks_empty [of "end" start maxSize] by blast

theorem chunks_contiguous_witness:
  "(0::int) \<le> 100 \<and> (0::int) \<le> 250 \<and>
   (\<exists>rs. chunks 0 250 100 = Some rs \<and> heights rs = [0..250] \<and>
         (\<forall>(s, e) \<in> set rs. s \<le> e \<and> e - s \<le> 100) \<and> adjacent rs) \<and>
   (4::int) < 5 \<and> chunks 5 4 100 = Some []"
  using chunks_contiguous [of 100 0 250] chunks_contiguous [of 100 5 4] by simp

text \<open>
  For a negative maxSize and start at most end, the loop never exits and no sequence is
  produced.
\<close>

theorem chunks_negative_maxSize: "(0::int) \<le> 0 \<and> chunks 0 0 (- 1) = None"
  using chunks_diverges by simp

subsection \<open>C4: watch filtering\<close>



subsection \<open>C5: confirmation lag\<close>

text \<open>
  Claim C5. With head H and confirmations C, every range a tick queries starts and ends at or
  below H - C. This holds for the ranges of a tick that has returned, and for the ranges
  queried up to any moment of the loop of a tick, returned or not.
\<close>

theorem tick_confirmation_lag:
  "(tick cfg (Inr head) querySlice (lastProcessed, w) = Some (logged, lastProcessed', w') \<longrightarrow>
      (\<exists>rs. scanned w' = scanned w @ rs \<and>
            (\<forall>(s, e) \<in> set rs. s \<le> head - CONFIRMATIONS cfg \<and> e \<le> head - CONFIRMATIONS cfg))) \<and>
   (iterates (pollCond (head - CONFIRMATIONS cfg))
        (pollBody querySlice (CHUNK cfg) (head - CONFIRMATIONS cfg))
        (lastProcessed + 1, None, w) (cursor, thrown, w'') \<longrightarrow>
      (\<exists>rs. scanned w'' = scanned w @ rs \<and>
            (\<forall>(s, e) \<in> set rs. s \<le> head - CONFIRMATIONS cfg \<and> e \<le> head - CONFIRMATIONS cfg)))"
proof (intro conjI impI)
  assume "tick cfg (Inr head) querySlice (lastProcessed, w) = Some (logged, lastProcessed', w')"
  then show "\<exists>rs. scanned w' = scanned w @ rs \<and>
            (\<forall>(s, e) \<in> set rs. s \<le> head - CONFIRMATIONS cfg \<and> e \<le> head - CONFIRMATIONS cfg)"
    by (rule tick_scans_below_safeHead)
next
  assume "iterates (pollCond (head - CONFIRMATIONS cfg))
        (pollBody querySlice (CHUNK cfg) (head - CONFIRMATIONS cfg))
        (lastProcessed + 1, None, w) (cursor, thrown, w'')"
  from poll_iterates_bounded [OF this]
  show "\<exists>rs. scanned w'' = scanned w @ rs \<and>
            (\<forall>(s, e) \<in> set rs. s \<le> head - CONFIRMATIONS cfg \<and> e \<le> head - CONFIRMATIONS cfg)"
    by (simp add: boundedTrace_def)
qed

theorem tick_confirmation_lag_witness:
  "tick_items ex_cfg ex_chain (100, ex_files) =
     Some (None, 248,
           \<lparr>db = [ex_item_row], progress = Some 248, scanned = [(101, 201), (202, 248)]\<rparr>) \<and>
   getBlockNumber ex_chain = Inr 250 \<and>
   (\<exists>rs. scanned \<lparr>db = [ex_item_row], progress = Some 248, scanned = [(101, 201), (202, 248)]\<rparr>
            = scanned ex_files @ rs \<and>
         (\<forall>(s, e) \<in> set rs. s \<le> 250 - CONFIRMATIONS ex_cfg \<and> e \<le> 250 - CONFIRMATIONS ex_cfg)) \<and>
   iterates (pollCond (250 - CONFIRMATIONS ex_cfg))
     (pollBody (querySlice_items ex_cfg ex_chain) (CHUNK ex_cfg) (250 - CONFIRMATIONS ex_cfg))
     (100 + 1, None, ex_files)
     (202, None, \<lparr>db = [ex_item_row], progress = Some 100, scanned = [(101, 201)]\<rparr>) \<and>
   (\<exists>rs. scanned \<lparr>db = [ex_item_row], progress = Some 100, scanned = [(101, 201)]\<rparr>
            = scanned ex_files @ rs \<and>
         (\<forall>(s, e) \<in> set rs. s \<le> 250 - CONFIRMATIONS ex_cfg \<and> e \<le> 250 - CONFIRMATIONS ex_cfg))"
proof -
  note t = tick_confirmation_lag [of ex_cfg 250 "querySlice_items ex_cfg ex_chain" 100 ex_files
      None 248 "\<lparr>db = [ex_item_row], progress = Some 248, scanned = [(101, 201), (202, 248)]\<rparr>"
      202 None "\<lparr>db = [ex_item_row], progress = Some 100, scanned = [(101, 201)]\<rparr>"]
  have h: "getBlockNumber ex_chain = Inr 250" by (simp add: ex_chain_def)
  have r: "tick ex_cfg (Inr 250) (querySlice_items ex_cfg ex_chain) (100, ex_files) =
     Some (None, 248,
           \<lparr>db = [ex_item_row], progress = Some 248, scanned = [(101, 201), (202, 248)]\<rparr>)"
    using ex_tick by (simp add: tick_items_def h)
  show ?thesis
    by (intro conjI ex_tick h ex_tick_start t [THEN conjunct1, THEN mp, OF r]
        t [THEN conjunct2, THEN mp, OF ex_tick_start])
qed

subsection \<open>C6: the starting height of the backfill\<close>

text \<open>
  Claim C6. The backfill starts at max(0, checkpoint - confirmations) when the checkpoint read
  is above 0; otherwise at the override when one is configured; otherwise at
  max(0, head - lookback). The checkpoint read is the content of the progress file, 0 when
  there is none, and the first range the backfill queries begins at that starting height.
\<close>

theorem scanHistorical_start:
  "(0 < loadProgress w \<longrightarrow>
      fromBlock cfg (loadProgress w) latest = max 0 (loadProgress w - CONFIRMATIONS cfg)) \<and>
   (\<not> 0 < loadProgress w \<and> FROM_BLOCK cfg = Some b \<longrightarrow>
      fromBlock cfg (loadProgress w) latest = b) \<and>
   (\<not> 0 < loadProgress w \<and> FROM_BLOCK cfg = None \<longrightarrow>
      fromBlock cfg (loadProgress w) latest = max 0 (latest - INIT_LOOKBACK cfg)) \<and>
   loadProgress w = (case progress w of None \<Rightarrow> 0 | Some h \<Rightarrow> h) \<and>
   (scanHistorical cfg (Inr latest) querySlice w = Some (r, w') \<and>
    fromBlock cfg (loadProgress w) latest \<le> latest \<longrightarrow>
      (\<exists>rs. scanned w' = scanned w @
         (fromBlock cfg (loadProgress w) latest,
          min latest (fromBlock cfg (loadProgress w) latest + CHUNK cfg)) # rs))"
proof (intro conjI impI)
  assume "0 < loadProgress w"
  then show "fromBlock cfg (loadProgress w) latest = max 0 (loadProgress w - CONFIRMATIONS cfg)"
    by (simp add: fromBlock_def)
next
  assume "\<not> 0 < loadProgress w \<and> FROM_BLOCK cfg = Some b"
  then show "fromBlock cfg (loadProgress w) latest = b"
    by (simp add: fromBlock_def)
next
  assume "\<not> 0 < loadProgress w \<and> FROM_BLOCK cfg = None"
  then show "fromBlock cfg (loadProgress w) latest = max 0 (latest - INIT_LOOKBACK cfg)"
    by (simp add: fromBlock_def)
next
  show "loadProgress w = (case progress w of None \<Rightarrow> 0 | Some h \<Rightarrow> h)"
    by (rule loadProgress_eq)
next
  assume "scanHistorical cfg (Inr latest) querySlice w = Some (r, w') \<and>
    fromBlock cfg (loadProgress w) latest \<le> latest"
  then show "\<exists>rs. scanned w' = scanned w @
         (fromBlock cfg (loadProgress w) latest,
          min latest (fromBlock cfg (loadProgress w) latest + CHUNK cfg)) # rs"
    using scanHistorical_first [of cfg latest querySlice w r w'] by simp
qed

theorem scanHistorical_start_witness:
  "0 < loadProgress (ex_world (Some 120)) \<and>
   fromBlock ex_cfg (loadProgress (ex_world (Some 120))) 250
     = max 0 (loadProgress (ex_world (Some 120)) - CONFIRMATIONS ex_cfg) \<and>
   \<not> 0 < loadProgress (ex_world None) \<and> FROM_BLOCK (ex_cfg\<lparr>FROM_BLOCK := Some 77\<rparr>) = Some 77 \<and>
   fromBlock (ex_cfg\<lparr>FROM_BLOCK := Some 77\<rparr>) (loadProgress (ex_world None)) 250 = 77 \<and>
   FROM_BLOCK ex_cfg = None \<and>
   fromBlock ex_cfg (loadProgress (ex_world None)) 60000 = max 0 (60000 - INIT_LOOKBACK ex_cfg) \<and>
   scanHistorical ex_cfg (Inr 250) (\<lambda>_ _ d. (None, d)) (ex_world (Some 120)) =
     Some (Inr 250, \<lparr>db = (), progress = Some 250, scanned = [(118, 218), (219, 250)]\<rparr>) \<and>
   fromBlock ex_cfg (loadProgress (ex_world (Some 120))) 250 \<le> 250 \<and>
   (\<exists>rs. scanned \<lparr>db = (), progress = Some 250, scanned = [(118, 218), (219, 250)]\<rparr>
           = scanned (ex_world (Some 120)) @
             (fromBlock ex_cfg (loadProgress (ex_world (Some 120))) 250,
              min 250 (fromBlock ex_cfg (loadProgress (ex_world (Some 120))) 250 + CHUNK ex_cfg)) # rs)"
proof -
  note t = scanHistorical_start [of "ex_world (Some 120)" ex_cfg 250 0 "\<lambda>_ _ d. (None, d)" "Inr 250"
      "\<lparr>db = (), progress = Some 250, scanned = [(118, 218), (219, 250)]\<rparr>"]
  have p: "0 < loadProgress (ex_world (Some 120))"
    by (simp add: loadProgress_def ex_world_def)
  have f: "fromBlock ex_cfg (loadProgress (ex_world (Some 120))) 250 \<le> 250"
    by (simp add: fromBlock_def loadProgress_def ex_world_def ex_cfg_def)
  have q: "\<not> 0 < loadProgress (ex_world None)"
    by (simp add: loadProgress_def ex_world_def)
  have o: "FROM_BLOCK (ex_cfg\<lparr>FROM_BLOCK := Some 77\<rparr>) = Some 77" by simp
  have n: "FROM_BLOCK ex_cfg = None" by (simp add: ex_cfg_def)
  note a = t [THEN conjunct1, THEN mp, OF p]
  note b = scanHistorical_start [of "ex_world None" "ex_cfg\<lparr>FROM_BLOCK := Some 77\<rparr>" 250 77,
      THEN conjunct2, THEN conjunct1, THEN mp, OF conjI [OF q o]]
  note c = scanHistorical_start [of "ex_world None" ex_cfg 60000,
      THEN conjunct2, THEN conjunct2, THEN conjunct1, THEN mp, OF conjI [OF q n]]
  note e = t [THEN conjunct2, THEN conjunct2, THEN conjunct2, THEN conjunct2, THEN mp,
      OF conjI [OF ex_scan f]]
  show ?thesis by (intro conjI p a q o b n c ex_scan f e)
qed

subsection \<open>C7: a failed tick keeps the checkpoint\<close>

text \<open>
  Claim C7. When the head query of a tick fails, or a call of \<^verbatim>\<open>querySlice\<close> fails at any moment
  of its loop, the tick returns with the error caught, \<open>lastProcessed\<close> as it was and the
  progress file as it was, so the next tick starts from the same point. Every tick that ends
  with a caught error leaves both unchanged, and with a chunk size that is not negative every
  tick returns.
\<close>

theorem tick_failure_policy:
  "tick cfg (Inl e) querySlice (lastProcessed, w) = Some (Some e, lastProcessed, w) \<and>
   (lastProcessed < head - CONFIRMATIONS cfg \<and>
    iterates (pollCond (head - CONFIRMATIONS cfg))
      (pollBody querySlice (CHUNK cfg) (head - CONFIRMATIONS cfg))
      (lastProcessed + 1, None, w) (cursor, Some e, w') \<longrightarrow>
      tick cfg (Inr head) querySlice (lastProcessed, w) = Some (Some e, lastProcessed, w') \<and>
      progress w' = progress w) \<and>
   (tick cfg blockNum querySlice (lastProcessed, w) = Some (Some e, lastProcessed', w'') \<longrightarrow>
      lastProcessed' = lastProcessed \<and> progress w'' = progress w) \<and>
   (0 \<le> CHUNK cfg \<longrightarrow> (\<exists>r. tick cfg blockNum querySlice (lastProcessed, w) = Some r))"
proof (intro conjI impI)
  show "tick cfg (Inl e) querySlice (lastProcessed, w) = Some (Some e, lastProcessed, w)"
    by (rule tick_Inl)
next
  assume a: "lastProcessed < head - CONFIRMATIONS cfg \<and>
    iterates (pollCond (head - CONFIRMATIONS cfg))
      (pollBody querySlice (CHUNK cfg) (head - CONFIRMATIONS cfg))
      (lastProcessed + 1, None, w) (cursor, Some e, w')"
  from tick_slice_fails [of lastProcessed head cfg querySlice w cursor e w'] a
  show "tick cfg (Inr head) querySlice (lastProcessed, w) = Some (Some e, lastProcessed, w')"
    and "progress w' = progress w"
    by simp_all
next
  assume a: "tick cfg blockNum querySlice (lastProcessed, w) = Some (Some e, lastProcessed', w'')"
  from tick_error_keeps_checkpoint [OF a]
  show "lastProcessed' = lastProcessed" and "progress w'' = progress w" by simp_all
next
  assume "0 \<le> CHUNK cfg"
  then show "\<exists>r. tick cfg blockNum querySlice (lastProcessed, w) = Some r"
    by (rule tick_returns)
qed

theorem tick_failure_policy_witness:
  "tick ex_cfg (Inl (Error ''timeout'')) ex_failing (0, ex_world (Some 0))
     = Some (Some (Error ''timeout''), 0, ex_world (Some 0)) \<and>
   0 < 250 - CONFIRMATIONS ex_cfg \<and>
   iterates (pollCond (250 - CONFIRMATIONS ex_cfg))
     (pollBody ex_failing (CHUNK ex_cfg) (250 - CONFIRMATIONS ex_cfg))
     (0 + 1, None, ex_world (Some 0))
     (102, Some (Error ''timeout''),
      \<lparr>db = (), progress = Some 0, scanned = [(1, 101), (102, 202)]\<rparr>) \<and>
   tick ex_cfg (Inr 250) ex_failing (0, ex_world (Some 0))
     = Some (Some (Error ''timeout''), 0,
             \<lparr>db = (), progress = Some 0, scanned = [(1, 101), (102, 202)]\<rparr>) \<and>
   progress \<lparr>db = (), progress = Some 0, scanned = [(1, 101), (102, 202)]\<rparr>
     = progress (ex_world (Some 0)) \<and>
   0 \<le> CHUNK ex_cfg \<and>
   (\<exists>r. tick ex_cfg (Inr 250) ex_failing (0, ex_world (Some 0)) = Some r)"
proof -
  have lt: "0 < 250 - CONFIRMATIONS ex_cfg" and ch: "0 \<le> CHUNK ex_cfg"
    by (simp_all add: ex_cfg_def)
  note t = tick_failure_policy [of ex_cfg "Error ''timeout''" ex_failing 0 "ex_world (Some 0)" 250 102
      "\<lparr>db = (), progress = Some 0, scanned = [(1, 101), (102, 202)]\<rparr>" "Inr 250" 0
      "\<lparr>db = (), progress = Some 0, scanned = [(1, 101), (102, 202)]\<rparr>"]
  have c: "tick ex_cfg (Inr 250) ex_failing (0, ex_world (Some 0))
             = Some (Some (Error ''timeout''), 0,
                     \<lparr>db = (), progress = Some 0, scanned = [(1, 101), (102, 202)]\<rparr>) \<and>
           progress \<lparr>db = (), progress = Some 0, scanned = [(1, 101), (102, 202)]\<rparr>
             = progress (ex_world (Some 0))"
    by (rule t [THEN conjunct2, THEN conjunct1, THEN mp]) (intro conjI lt ex_failing_run)
  have g: "\<exists>r. tick ex_cfg (Inr 250) ex_failing (0, ex_world (Some 0)) = Some r"
    by (rule t [THEN conjunct2, THEN conjunct2, THEN conjunct2, THEN mp]) (rule ch)
  show ?thesis
    by (intro conjI t [THEN conjunct1] lt ex_failing_run c [THEN conjunct1] c [THEN conjunct2] ch g)
qed

subsection \<open>C8: idempotent append\<close>

text \<open>
  Claim C8, as amended. Appending a record whose key is already in the store leaves the store
  unchanged, where the key is the lower-cased transaction hash in the ERC-1155 monitor and the
  lower-cased hash followed by the token identifier in the ERC-721 monitor. In both monitors,
  once a range has been scanned without error, scanning it again with the same events leaves
  the store, and so the record count, unchanged, also when other records were added in between.
\<close>

theorem idempotent_append:
  "(toLowerCase (transactionHash logObj) \<in> keys_items d \<longrightarrow>
      snd (enrichAndPersist_items cfg ch fa ta ids amts logObj d) = d) \<and>
   (key_egg (transactionHash logObj) tok \<in> keys_egg d' \<longrightarrow>
      snd (enrichAndPersist_egg ch fa ta tok logObj d') = d') \<and>
   (querySlice_items cfg ch start end d0 = (None, d1) \<and> keys_items d1 \<subseteq> keys_items d2 \<and>
    queryFilter_TransferSingle ch' start end = queryFilter_TransferSingle ch start end \<and>
    queryFilter_TransferBatch ch' start end = queryFilter_TransferBatch ch start end \<longrightarrow>
      snd (querySlice_items cfg ch' start end d2) = d2 \<and>
      length (snd (querySlice_items cfg ch' start end d2)) = length d2) \<and>
   (querySlice_egg ch start end d0' = (None, d1') \<and> keys_egg d1' \<subseteq> keys_egg d2' \<and>
    queryFilter_Transfer ch' start end = queryFilter_Transfer ch start end \<longrightarrow>
      snd (querySlice_egg ch' start end d2') = d2' \<and>
      length (snd (querySlice_egg ch' start end d2')) = length d2')"
proof (intro conjI impI)
  assume "toLowerCase (transactionHash logObj) \<in> keys_items d"
  then show "snd (enrichAndPersist_items cfg ch fa ta ids amts logObj d) = d"
    by (rule enrich_items_known)
next
  assume "key_egg (transactionHash logObj) tok \<in> keys_egg d'"
  then show "snd (enrichAndPersist_egg ch fa ta tok logObj d') = d'"
    by (rule enrich_egg_known)
next
  assume a: "querySlice_items cfg ch start end d0 = (None, d1) \<and> keys_items d1 \<subseteq> keys_items d2 \<and>
    queryFilter_TransferSingle ch' start end = queryFilter_TransferSingle ch start end \<and>
    queryFilter_TransferBatch ch' start end = queryFilter_TransferBatch ch start end"
  then have "snd (querySlice_items cfg ch' start end d2) = d2"
    using rescan_items [of cfg ch start "end" d0 d1 d2 ch'] by blast
  then show "snd (querySlice_items cfg ch' start end d2) = d2"
    and "length (snd (querySlice_items cfg ch' start end d2)) = length d2"
    by simp_all
next
  assume a: "querySlice_egg ch start end d0' = (None, d1') \<and> keys_egg d1' \<subseteq> keys_egg d2' \<and>
    queryFilter_Transfer ch' start end = queryFilter_Transfer ch start end"
  then have "snd (querySlice_egg ch' start end d2') = d2'"
    using rescan_egg [of ch start "end" d0' d1' d2' ch'] by blast
  then show "snd (querySlice_egg ch' start end d2') = d2'"
    and "length (snd (querySlice_egg ch' start end d2')) = length d2'"
    by simp_all
qed

theorem idempotent_append_witness:
  "toLowerCase (transactionHash ex_log) \<in> keys_items [ex_item_row] \<and>
   snd (enrichAndPersist_items ex_cfg ex_chain ''0x00000000000000000000000000000000000000b1''
          ''0x00000000000000000000000000000000000000aa'' [4] [1] ex_log [ex_item_row]) = [ex_item_row] \<and>
   key_egg (transactionHash ex_log) 2 \<in> keys_egg [ex_egg_row ''1'', ex_egg_row ''2''] \<and>
   snd (enrichAndPersist_egg ex_chain ''0x00000000000000000000000000000000000000b1''
          ''0x00000000000000000000000000000000000000aa'' 2 ex_log [ex_egg_row ''1'', ex_egg_row ''2''])
     = [ex_egg_row ''1'', ex_egg_row ''2''] \<and>
   querySlice_items ex_cfg ex_chain 101 201 [] = (None, [ex_item_row]) \<and>
   snd (querySlice_items ex_cfg ex_chain 101 201 [ex_item_row]) = [ex_item_row] \<and>
   querySlice_egg ex_chain 101 201 [] = (None, [ex_egg_row ''1'', ex_egg_row ''2'']) \<and>
   snd (querySlice_egg ex_chain 101 201 [ex_egg_row ''1'', ex_egg_row ''2''])
     = [ex_egg_row ''1'', ex_egg_row ''2'']"
proof -
  note t = idempotent_append [of ex_log "[ex_item_row]" ex_cfg ex_chain
      "''0x00000000000000000000000000000000000000b1''"
      "''0x00000000000000000000000000000000000000aa''" "[4]" "[1]"
      2 "[ex_egg_row ''1'', ex_egg_row ''2'']" 101 201 "[]" "[ex_item_row]" "[ex_item_row]" ex_chain
      "[]" "[ex_egg_row ''1'', ex_egg_row ''2'']" "[ex_egg_row ''1'', ex_egg_row ''2'']"]
  have a: "snd (enrichAndPersist_items ex_cfg ex_chain ''0x00000000000000000000000000000000000000b1''
          ''0x00000000000000000000000000000000000000aa'' [4] [1] ex_log [ex_item_row]) = [ex_item_row]"
    by (rule t [THEN conjunct1, THEN mp]) (rule ex_items_key)
  have b: "snd (enrichAndPersist_egg ex_chain ''0x00000000000000000000000000000000000000b1''
          ''0x00000000000000000000000000000000000000aa'' 2 ex_log [ex_egg_row ''1'', ex_egg_row ''2''])
     = [ex_egg_row ''1'', ex_egg_row ''2'']"
    by (rule t [THEN conjunct2, THEN conjunct1, THEN mp]) (rule ex_egg_key)
  have c: "snd (querySlice_items ex_cfg ex_chain 101 201 [ex_item_row]) = [ex_item_row]"
    by (rule t [THEN conjunct2, THEN conjunct2, THEN conjunct1, THEN mp, THEN conjunct1])
       (simp add: ex_items_slice)
  have d: "snd (querySlice_egg ex_chain 101 201 [ex_egg_row ''1'', ex_egg_row ''2''])
     = [ex_egg_row ''1'', ex_egg_row ''2'']"
    by (rule t [THEN conjunct2, THEN conjunct2, THEN conjunct2, THEN mp, THEN conjunct1])
       (simp add: ex_egg_slice)
  show ?thesis
    by (intro conjI ex_items_key a ex_egg_key b ex_items_slice c ex_egg_slice d)
qed

text \<open>
  As the claim states it, the first part fails in the ERC-721 monitor: the store holds the
  hash of the example transaction, and appending the record of its second token adds a record.
\<close>

theorem egg_append_same_txHash:
  "snd (handleTransfer_egg ex_chain (ex_transfer 1) []) = [ex_egg_row ''1''] \<and>
   transactionHash ex_log \<in> txHash ` set [ex_egg_row ''1''] \<and>
   snd (enrichAndPersist_egg ex_chain
          ''0x00000000000000000000000000000000000000b1''
          ''0x00000000000000000000000000000000000000aa'' 2 ex_log [ex_egg_row ''1''])
     = [ex_egg_row ''1'', ex_egg_row ''2'']"
  by (simp add: egg_eval ex_egg_row_def)

subsection \<open>C9: serialization of ticks\<close>

text \<open>
  Claim C9 is about the timer: whether a tick can begin while an earlier one is suspended at an
  \<^verbatim>\<open>await\<close>. That depends on the scheduling of the event loop and on how long the chain
  client takes to answer, neither of which the functions above express; \<open>tick\<close> describes one
  tick run from start to finish, so no statement about overlapping ticks is made here.
\<close>

subsection \<open>C10: zero identifiers and zero amounts\<close>

text \<open>
  Claim C10. A single-transfer event with token identifier 0 or amount 0 produces no record.
  In a batch, when the loop over the entries completes, the entries handed on are exactly those
  with a non-zero identifier, a non-zero amount and a watched identifier, so an entry with
  identifier 0 or amount 0 is in no record, and the record of the batch lists exactly the
  entries handed on. A batch all of whose entries have a zero identifier or amount produces no
  record. When the loop throws instead (fewer amounts than identifiers), the handler throws
  and no record is produced at all.
\<close>

theorem zero_entries_dropped:
  "(args_id sev = 0 \<or> args_value sev = 0 \<longrightarrow> handleTransferSingle cfg ch sev d = (None, d)) \<and>
   (filterBatch ids vals = Inr (filteredIds, filteredValues) \<longrightarrow>
      zip filteredIds filteredValues =
        filter (\<lambda>(id, val). id \<noteq> 0 \<and> val \<noteq> 0 \<and> toString id \<in> set WATCH_TOKEN_IDS) (zip ids vals) \<and>
      length filteredIds = length filteredValues \<and>
      0 \<notin> set filteredIds \<and> 0 \<notin> set filteredValues) \<and>
   ((\<forall>(id, val) \<in> set (zip (args_ids bev) (args_values bev)). id = 0 \<or> val = 0) \<longrightarrow>
      snd (handleTransferBatch cfg ch bev d) = d \<and>
      (length (args_ids bev) \<le> length (args_values bev) \<longrightarrow>
         handleTransferBatch cfg ch bev d = (None, d))) \<and>
   (toLowerCase (args_to bev) = WATCH_WALLET cfg \<and>
    filterBatch (args_ids bev) (args_values bev) = Inr (filteredIds, filteredValues) \<and>
    filteredIds \<noteq> [] \<and>
    getBlock ch (log_blockNumber (log bev)) = Inr isoDate \<and>
    toLowerCase (transactionHash (log bev)) \<notin> keys_items d \<longrightarrow>
      handleTransferBatch cfg ch bev d =
        (None, sortDb (d @ [\<lparr>receivedTo = toLowerCase (args_to bev),
                   sender = toLowerCase (args_from bev),
                   blockNumber = log_blockNumber (log bev), txHash = transactionHash (log bev),
                   dateISO = isoDate,
                   tokenIds = map toString filteredIds, amounts = map toString filteredValues,
                   itemTypes = map itemType filteredIds,
                   totalAmount = toString (foldl (\<lambda>sum amt. sum + amt) 0 filteredValues),
                   contract = CONTRACT_ADDRESS cfg\<rparr>]))) \<and>
   (filterBatch (args_ids bev) (args_values bev) = Inl e \<longrightarrow>
      handleTransferBatch cfg ch bev d =
        (if toLowerCase (args_to bev) \<noteq> WATCH_WALLET cfg then None else Some e, d))"
proof (intro conjI impI)
  assume "args_id sev = 0 \<or> args_value sev = 0"
  then have "skips_single cfg sev" by (auto simp: skips_single_def)
  then show "handleTransferSingle cfg ch sev d = (None, d)"
    by (rule handleTransferSingle_skip)
next
  assume f: "filterBatch ids vals = Inr (filteredIds, filteredValues)"
  note fi = filterBatch_Inr(2) [OF f] and fv = filterBatch_Inr(3) [OF f]
  show "zip filteredIds filteredValues =
        filter (\<lambda>(id, val). id \<noteq> 0 \<and> val \<noteq> 0 \<and> toString id \<in> set WATCH_TOKEN_IDS) (zip ids vals)"
    unfolding fi fv by (simp add: zip_map_fst_snd watched_def)
  show "length filteredIds = length filteredValues"
    unfolding fi fv by simp
  show "0 \<notin> set filteredIds"
    unfolding fi by (auto simp: watched_def)
  show "0 \<notin> set filteredValues"
    unfolding fv by (auto simp: watched_def)
next
  assume z: "\<forall>(id, val) \<in> set (zip (args_ids bev) (args_values bev)). id = 0 \<or> val = 0"
  then have k: "filter watched (zip (args_ids bev) (args_values bev)) = []"
    by (auto simp: filter_empty_conv watched_def)
  have "skips_batch cfg bev \<or> throws_batch cfg bev"
    using k by (auto simp: skips_batch_def throws_batch_def)
  then show "snd (handleTransferBatch cfg ch bev d) = d"
    by (rule handleTransferBatch_unchanged)
next
  assume "\<forall>(id, val) \<in> set (zip (args_ids bev) (args_values bev)). id = 0 \<or> val = 0"
    and le: "length (args_ids bev) \<le> length (args_values bev)"
  then have "filter watched (zip (args_ids bev) (args_values bev)) = []"
    by (auto simp: filter_empty_conv watched_def)
  with le have "skips_batch cfg bev" by (simp add: skips_batch_def)
  then show "handleTransferBatch cfg ch bev d = (None, d)"
    by (rule handleTransferBatch_skip)
next
  assume a: "toLowerCase (args_to bev) = WATCH_WALLET cfg \<and>
    filterBatch (args_ids bev) (args_values bev) = Inr (filteredIds, filteredValues) \<and>
    filteredIds \<noteq> [] \<and>
    getBlock ch (log_blockNumber (log bev)) = Inr isoDate \<and>
    toLowerCase (transactionHash (log bev)) \<notin> keys_items d"
  then have f: "filterBatch (args_ids bev) (args_values bev) = Inr (filteredIds, filteredValues)"
    by simp
  note le = filterBatch_Inr(1) [OF f] and fi = filterBatch_Inr(2) [OF f]
    and fv = filterBatch_Inr(3) [OF f]
  from a fi have "\<not> skips_batch cfg bev" by (auto simp: skips_batch_def)
  moreover from le have "\<not> throws_batch cfg bev" by (simp add: throws_batch_def)
  ultimately have "handleTransferBatch cfg ch bev d =
      enrichAndPersist_items cfg ch (toLowerCase (args_from bev)) (toLowerCase (args_to bev))
        filteredIds filteredValues (log bev) d"
    by (simp add: handleTransferBatch_pass fi fv)
  with a show "handleTransferBatch cfg ch bev d =
        (None, sortDb (d @ [\<lparr>receivedTo = toLowerCase (args_to bev),
                   sender = toLowerCase (args_from bev),
                   blockNumber = log_blockNumber (log bev), txHash = transactionHash (log bev),
                   dateISO = isoDate,
                   tokenIds = map toString filteredIds, amounts = map toString filteredValues,
                   itemTypes = map itemType filteredIds,
                   totalAmount = toString (foldl (\<lambda>sum amt. sum + amt) 0 filteredValues),
                   contract = CONTRACT_ADDRESS cfg\<rparr>]))"
    by (simp add: enrich_items_new)
next
  assume "filterBatch (args_ids bev) (args_values bev) = Inl e"
  then show "handleTransferBatch cfg ch bev d =
        (if toLowerCase (args_to bev) \<noteq> WATCH_WALLET cfg then None else Some e, d)"
    by (simp add: handleTransferBatch_def Let_def)
qed

theorem zero_entries_dropped_witness:
  "(args_id (ex_single\<lparr>args_value := 0\<rparr>) = 0 \<or> args_value (ex_single\<lparr>args_value := 0\<rparr>) = 0) \<and>
   handleTransferSingle ex_cfg ex_chain (ex_single\<lparr>args_value := 0\<rparr>) [] = (None, []) \<and>
   filterBatch [5, 0, 73, 74] [3, 9, 0, 2] = Inr ([5, 74], [3, 2]) \<and>
   zip [5, 74] [3, 2 :: nat] =
     filter (\<lambda>(id, val). id \<noteq> 0 \<and> val \<noteq> 0 \<and> toString id \<in> set WATCH_TOKEN_IDS)
       (zip [5, 0, 73, 74] [3, 9, 0, 2 :: nat]) \<and>
   zip (args_ids (ex_batch\<lparr>args_ids := [0, 5], args_values := [4, 0]\<rparr>))
       (args_values (ex_batch\<lparr>args_ids := [0, 5], args_values := [4, 0]\<rparr>))
     = [(0, 4), (5, 0)] \<and>
   length (args_ids (ex_batch\<lparr>args_ids := [0, 5], args_values := [4, 0]\<rparr>))
     \<le> length (args_values (ex_batch\<lparr>args_ids := [0, 5], args_values := [4, 0]\<rparr>)) \<and>
   handleTransferBatch ex_cfg ex_chain (ex_batch\<lparr>args_ids := [0, 5], args_values := [4, 0]\<rparr>) []
     = (None, []) \<and>
   toLowerCase (args_to (ex_batch\<lparr>args_ids := [5, 0, 73, 74], args_values := [3, 9, 0, 2]\<rparr>))
     = WATCH_WALLET ex_cfg \<and>
   [5, 74] \<noteq> ([] :: nat list) \<and>
   getBlock ex_chain (log_blockNumber (log (ex_batch\<lparr>args_ids := [5, 0, 73, 74], args_values := [3, 9, 0, 2]\<rparr>)))
     = Inr ''2025-01-01T00:00:00.000Z'' \<and>
   toLowerCase (transactionHash (log (ex_batch\<lparr>args_ids := [5, 0, 73, 74], args_values := [3, 9, 0, 2]\<rparr>)))
     \<notin> keys_items [] \<and>
   map tokenIds (snd (handleTransferBatch ex_cfg ex_chain
       (ex_batch\<lparr>args_ids := [5, 0, 73, 74], args_values := [3, 9, 0, 2]\<rparr>) []))
     = [[''5'', ''74'']] \<and>
   filterBatch (args_ids (ex_batch\<lparr>args_ids := [5, 0], args_values := [3]\<rparr>))
       (args_values (ex_batch\<lparr>args_ids := [5, 0], args_values := [3]\<rparr>))
     = Inl (Error ''out of result range'') \<and>
   handleTransferBatch ex_cfg ex_chain (ex_batch\<lparr>args_ids := [5, 0], args_values := [3]\<rparr>) []
     = (Some (Error ''out of result range''), [])"
proof -
  let ?z = "ex_batch\<lparr>args_ids := [0, 5], args_values := [4, 0]\<rparr>"
  let ?b = "ex_batch\<lparr>args_ids := [5, 0, 73, 74], args_values := [3, 9, 0, 2]\<rparr>"
  let ?s = "ex_batch\<lparr>args_ids := [5, 0], args_values := [3]\<rparr>"
  note t1 = zero_entries_dropped [of "ex_single\<lparr>args_value := 0\<rparr>" ex_cfg ex_chain "[]"
      "[5, 0, 73, 74]" "[3, 9, 0, 2]" "[5, 74]" "[3, 2]" ?z "''''" "Error ''''"]
  note t2 = zero_entries_dropped [of ex_single ex_cfg ex_chain "[]"
      "[5, 0, 73, 74]" "[3, 9, 0, 2]" "[5, 74]" "[3, 2]" ?b "''2025-01-01T00:00:00.000Z''"
      "Error ''''"]
  note t3 = zero_entries_dropped [of ex_single ex_cfg ex_chain "[]"
      "[5, 0, 73, 74]" "[3, 9, 0, 2]" "[5, 74]" "[3, 2]" ?s "''''"
      "Error ''out of result range''"]
  have h1: "args_id (ex_single\<lparr>args_value := 0\<rparr>) = 0 \<or> args_value (ex_single\<lparr>args_value := 0\<rparr>) = 0"
    by simp
  have h3: "\<forall>(id, val) \<in> set (zip (args_ids ?z) (args_values ?z)). id = 0 \<or> val = 0"
    by simp
  have l1: "length (args_ids ?z) \<le> length (args_values ?z)" by simp
  have h4: "toLowerCase (args_to ?b) = WATCH_WALLET ex_cfg"
    by (simp add: ex_eval)
  have h5: "filterBatch (args_ids ?b) (args_values ?b) = Inr ([5, 74], [3, 2])"
    by (simp add: ex_filterBatch)
  have h6: "[5, 74] \<noteq> ([] :: nat list)" by simp
  have h7: "getBlock ex_chain (log_blockNumber (log ?b)) = Inr ''2025-01-01T00:00:00.000Z''"
    and h8: "toLowerCase (transactionHash (log ?b)) \<notin> keys_items []"
    by (simp_all add: ex_defs keys_items_def)
  have h10: "filterBatch (args_ids ?s) (args_values ?s) = Inl (Error ''out of result range'')"
    by (simp add: ex_filterBatch_short)
  note c1 = t1 [THEN conjunct1, THEN mp, OF h1]
  note c2 = t1 [THEN conjunct2, THEN conjunct1, THEN mp, OF ex_filterBatch, THEN conjunct1]
  note c3 = t1 [THEN conjunct2, THEN conjunct2, THEN conjunct1, THEN mp, OF h3,
      THEN conjunct2, THEN mp, OF l1]
  have c4: "map tokenIds (snd (handleTransferBatch ex_cfg ex_chain ?b [])) = [[''5'', ''74'']]"
    using t2 [THEN conjunct2, THEN conjunct2, THEN conjunct2, THEN conjunct1, THEN mp,
        OF conjI [OF h4 conjI [OF h5 conjI [OF h6 conjI [OF h7 h8]]]]]
    by (simp add: sortDb_def toString.simps)
  have c5: "handleTransferBatch ex_cfg ex_chain ?s [] = (Some (Error ''out of result range''), [])"
    using t3 [THEN conjunct2, THEN conjunct2, THEN conjunct2, THEN conjunct2, THEN mp, OF h10]
    by (simp add: ex_eval)
  have h9: "zip (args_ids ?z) (args_values ?z) = [(0, 4), (5, 0)]" by simp
  show ?thesis by (intro conjI h1 c1 ex_filterBatch c2 h9 l1 c3 h4 h6 h7 h8 c4 h10 c5)
qed

end
